theory Spec2Isabelle
  imports Main "HOL-Library.Finite_Map" "HOL-Library.Word" "HOL-Library.Sublist"
begin

section \<open>The help screen of Cataclysm-BN (src/help.cpp)\<close>

text \<open>
  The class \<^verbatim>\<open>help\<close> owns two data members: \<^verbatim>\<open>help_texts\<close>, a
  \<^verbatim>\<open>std::map<int, std::pair<std::string, std::vector<std::string>>>\<close>, and \<^verbatim>\<open>hotkeys\<close>, a
  \<^verbatim>\<open>std::vector<std::vector<std::string>>\<close>. The map is a finite map keyed by 32-bit
  integers, the vector a list. Member functions mutate the object in place; the model
  passes the object in and returns the updated one.
\<close>

subsection \<open>Data\<close>

type_synonym int32 = "32 word"

type_synonym topic = "string \<times> string list"

record help_obj =
  help_texts :: "(int32, topic) fmap"
  hotkeys :: "string list list"

definition new_help :: help_obj where
  "new_help = \<lparr>help_texts = fmempty, hotkeys = []\<rparr>"

text \<open>\<^verbatim>\<open>help_texts[k]\<close>: \<^verbatim>\<open>std::map::operator[]\<close> returns the stored value, and inserts a
  value-initialised pair (empty name, no messages) first when the key is absent.\<close>

definition default_topic :: topic where
  "default_topic = ([], [])"

definition subscript :: "(int32, topic) fmap \<Rightarrow> int32 \<Rightarrow> topic \<times> (int32, topic) fmap" where
  "subscript m k =
     (case fmlookup m k of
        Some t \<Rightarrow> (t, m)
      | None \<Rightarrow> (default_topic, fmupd k default_topic m))"

definition map_size :: "(int32, topic) fmap \<Rightarrow> nat" where
  "map_size m = card (fmdom' m)"

subsection \<open>The collaborators of help.cpp\<close>

text \<open>
  help.cpp calls into the translation, input, colour and path subsystems, none of which
  is part of the file. Each call is a field of the record below, so that every theorem
  holds for whatever these subsystems answer:
  \<^item> \<open>translate\<close> is \<^verbatim>\<open>_( ... )\<close>;
  \<^item> \<open>note_color_names\<close> is \<^verbatim>\<open>get_note_color_names()\<close>, and \<open>colorize_note n\<close> is
    \<^verbatim>\<open>colorize( n, get_note_color( n ) )\<close>;
  \<^item> \<open>keys_bound_to\<close> is \<^verbatim>\<open>keys_bound_to( dir )\<close>, a \<^verbatim>\<open>std::vector<char>\<close>;
  \<^item> \<open>resolved_game_paths\<close> is the string \<^verbatim>\<open>resolved_game_paths()\<close> returns;
  \<^item> \<open>get_hotkeys\<close> is \<^verbatim>\<open>get_hotkeys( name )\<close>;
  \<^item> \<open>press_x a\<close> is \<^verbatim>\<open>press_x( look_up_action( a ), "", "" )\<close>: the description of the
    keys that trigger the action named \<open>a\<close>, the empty string (the third argument) when
    there is none;
  \<^item> \<open>utf8_width\<close> is \<^verbatim>\<open>utf8_width( s )\<close>, never negative;
  \<^item> \<open>read_rejects_absent\<close> says whether \<^verbatim>\<open>JsonObject::read\<close> throws when the member it
    is asked for is absent (deserialize discards the boolean it returns).
\<close>

datatype action_id =
    ACTION_MOVE_FORTH_LEFT | ACTION_MOVE_FORTH | ACTION_MOVE_FORTH_RIGHT
  | ACTION_MOVE_LEFT | ACTION_PAUSE | ACTION_MOVE_RIGHT
  | ACTION_MOVE_BACK_LEFT | ACTION_MOVE_BACK | ACTION_MOVE_BACK_RIGHT

record externals =
  translate :: "string \<Rightarrow> string"
  note_color_names :: "(string \<times> string) list"
  colorize_note :: "string \<Rightarrow> string"
  keys_bound_to :: "action_id \<Rightarrow> char list"
  resolved_game_paths :: string
  get_hotkeys :: "string \<Rightarrow> string list"
  press_x :: "string \<Rightarrow> string"
  utf8_width :: "string \<Rightarrow> nat"
  read_rejects_absent :: bool

subsection \<open>The JSON reader\<close>

datatype error = DataError

datatype json_value = JString string | JInt int32 | JStrings "string list"

type_synonym JsonObject = "(string \<times> json_value) list"

text \<open>Modelled from the spec: \<^verbatim>\<open>JsonObject::get_string\<close> (json.h is not among the sources).
  A record that lacks a required field, or holds a value of another kind there, fails the
  load with a DataError.\<close>

definition get_string :: "JsonObject \<Rightarrow> string \<Rightarrow> error + string" where
  "get_string jo name =
     (case map_of jo name of
        Some (JString s) \<Rightarrow> Inr s
      | _ \<Rightarrow> Inl DataError)"

text \<open>Modelled from the spec: \<^verbatim>\<open>JsonObject::get_int\<close> (json.h is not among the sources),
  as \<open>get_string\<close>.\<close>

definition get_int :: "JsonObject \<Rightarrow> string \<Rightarrow> error + int32" where
  "get_int jo name =
     (case map_of jo name of
        Some (JInt k) \<Rightarrow> Inr k
      | _ \<Rightarrow> Inl DataError)"

text \<open>Modelled from the spec: \<^verbatim>\<open>JsonObject::read\<close> into a \<^verbatim>\<open>std::vector<std::string>\<close>
  (json.h is not among the sources). The target vector is empty before the call. What the
  call does when the member is absent is left to \<open>read_rejects_absent\<close>: it throws, or it
  leaves the vector as it is.\<close>

definition read_strings :: "externals \<Rightarrow> JsonObject \<Rightarrow> string \<Rightarrow> error + string list" where
  "read_strings E jo name =
     (case map_of jo name of
        Some (JStrings xs) \<Rightarrow> Inr xs
      | Some _ \<Rightarrow> Inl DataError
      | None \<Rightarrow> if read_rejects_absent E then Inl DataError else Inr [])"

subsection \<open>String utilities\<close>

text \<open>Modelled from the spec: \<^verbatim>\<open>replace_all\<close> (string_utils.h is not among the sources)
  replaces all occurrences of the token, left to right, and does not scan the text it has
  substituted again. An empty token leaves the text as it is.\<close>

function replace_all :: "string \<Rightarrow> string \<Rightarrow> string \<Rightarrow> string" where
  "replace_all text token subst =
     (if token = [] \<or> text = [] then text
      else if prefix token text
        then subst @ replace_all (drop (length token) text) token subst
        else hd text # replace_all (tl text) token subst)"
  by pat_completeness auto
termination
  by (relation "measure (\<lambda>(text, token, subst). length text)") auto

declare replace_all.simps [simp del]

subsection \<open>Static placeholders\<close>

text \<open>\<^verbatim>\<open>help::get_note_colors\<close>: \<^verbatim>\<open>string_format( "%s:%s, ", a, b )\<close> is the concatenation
  written out.\<close>

definition get_note_colors :: "externals \<Rightarrow> string" where
  "get_note_colors E =
     foldl (\<lambda>text color_pair.
              text @ colorize_note E (fst color_pair) @ '':'' @ translate E (snd color_pair) @ '', '')
       (translate E ''Note colors: '') (note_color_names E)"

text \<open>Modelled from the spec: \<^verbatim>\<open>action_ident\<close> (action.h is not among the sources). The
  identifiers of the nine move actions are the slot names of the diagram in
  \<^verbatim>\<open>help::get_dir_grid\<close>.\<close>

fun action_ident :: "action_id \<Rightarrow> string" where
  "action_ident ACTION_MOVE_FORTH_LEFT = ''LEFTUP''"
| "action_ident ACTION_MOVE_FORTH = ''UP''"
| "action_ident ACTION_MOVE_FORTH_RIGHT = ''RIGHTUP''"
| "action_ident ACTION_MOVE_LEFT = ''LEFT''"
| "action_ident ACTION_PAUSE = ''pause''"
| "action_ident ACTION_MOVE_RIGHT = ''RIGHT''"
| "action_ident ACTION_MOVE_BACK_LEFT = ''LEFTDOWN''"
| "action_ident ACTION_MOVE_BACK = ''DOWN''"
| "action_ident ACTION_MOVE_BACK_RIGHT = ''RIGHTDOWN''"

definition movearray :: "action_id list" where
  "movearray =
     [ACTION_MOVE_FORTH_LEFT, ACTION_MOVE_FORTH, ACTION_MOVE_FORTH_RIGHT,
      ACTION_MOVE_LEFT, ACTION_PAUSE, ACTION_MOVE_RIGHT,
      ACTION_MOVE_BACK_LEFT, ACTION_MOVE_BACK, ACTION_MOVE_BACK_RIGHT]"

text \<open>The diagram: seven lines, the backslashes and line feeds of the C++ literal as
  characters.\<close>

definition bs :: char where
  "bs = CHR 0x5C"

definition nl :: char where
  "nl = CHR 0x0A"

definition movement_template :: string where
  "movement_template =
     ''<LEFTUP_0>  <UP_0>  <RIGHTUP_0>   <LEFTUP_1>  <UP_1>  <RIGHTUP_1>'' @ [nl] @
     '' '' @ [bs] @ '' | /     '' @ [bs] @ '' | /'' @ [nl] @
     ''  '' @ [bs] @ ''|/       '' @ [bs] @ ''|/'' @ [nl] @
     ''<LEFT_0>--<pause_0>--<RIGHT_0>   <LEFT_1>--<pause_1>--<RIGHT_1>'' @ [nl] @
     ''  /|'' @ [bs] @ ''       /|'' @ [bs] @ [nl] @
     '' / | '' @ [bs] @ ''     / | '' @ [bs] @ [nl] @
     ''<LEFTDOWN_0>  <DOWN_0>  <RIGHTDOWN_0>   <LEFTDOWN_1>  <DOWN_1>  <RIGHTDOWN_1>''"

text \<open>\<^verbatim>\<open>string_format( "_%d>", i )\<close> for the two slot numbers.\<close>

fun slot_suffix :: "nat \<Rightarrow> string" where
  "slot_suffix 0 = ''_0>''"
| "slot_suffix (Suc n) = ''_1>''"

text \<open>The body of the inner loop of \<^verbatim>\<open>get_dir_grid\<close>: \<^verbatim>\<open>%s\<close> of a \<^verbatim>\<open>char\<close> prints the
  character.\<close>

definition slot_what :: "action_id \<Rightarrow> nat \<Rightarrow> string" where
  "slot_what dir i = ''<'' @ action_ident dir @ slot_suffix i"

definition slot_with :: "char list \<Rightarrow> nat \<Rightarrow> string" where
  "slot_with keys i =
     (if i < length keys then ''<color_light_blue>'' @ [keys ! i] @ ''</color>''
      else ''<color_red>?</color>'')"

definition get_dir_grid :: "externals \<Rightarrow> string" where
  "get_dir_grid E =
     foldl (\<lambda>movement dir.
              foldl (\<lambda>movement i.
                       replace_all movement (slot_what dir i) (slot_with (keys_bound_to E dir) i))
                movement [0, 1])
       movement_template movearray"

subsection \<open>Loading the catalog\<close>

text \<open>The body of the loop over the messages of one record in \<^verbatim>\<open>help::deserialize\<close>. The
  tests are equalities of the whole line with the token.\<close>

definition expand_static :: "externals \<Rightarrow> string \<Rightarrow> string \<Rightarrow> string \<Rightarrow> string" where
  "expand_static E note_colors dir_grid line =
     (if line = ''<DRAW_NOTE_COLORS>''
        then replace_all line ''<DRAW_NOTE_COLORS>'' note_colors
      else if line = ''<HELP_DRAW_DIRECTIONS>''
        then replace_all line ''<HELP_DRAW_DIRECTIONS>'' dir_grid
      else if line = ''<GAME_DIRECTORIES>''
        then resolved_game_paths E
      else line)"

text \<open>One turn of the \<^verbatim>\<open>while\<close> loop of \<^verbatim>\<open>help::deserialize\<close>. An exception leaves the
  loop; the object is then as the turns before left it, so the turn returns the new
  object or the error. In \<^verbatim>\<open>help_texts[jo.get_int( "order" )] = ...\<close> the pair is built and
  the key is read before the map is touched.\<close>

definition deserialize_object ::
    "externals \<Rightarrow> string \<Rightarrow> string \<Rightarrow> help_obj \<Rightarrow> JsonObject \<Rightarrow> error + help_obj" where
  "deserialize_object E note_colors dir_grid st jo =
     (case read_strings E jo ''messages'' of
        Inl e \<Rightarrow> Inl e
      | Inr messages \<Rightarrow>
          let messages = map (expand_static E note_colors dir_grid) messages in
          (case get_string jo ''type'' of
             Inl e \<Rightarrow> Inl e
           | Inr ty \<Rightarrow>
               (case get_string jo ''name'' of
                  Inl e \<Rightarrow> Inl e
                | Inr name \<Rightarrow>
                    (case get_int jo ''order'' of
                       Inl e \<Rightarrow> Inl e
                     | Inr order \<Rightarrow>
                         Inr (st\<lparr>help_texts := fmupd order (name, messages) (help_texts st),
                                 hotkeys := hotkeys st @ [get_hotkeys E name]\<rparr>)))))"

text \<open>The loop: the object it has reached, and the exception that ended it, if any.\<close>

fun deserialize_loop ::
    "externals \<Rightarrow> string \<Rightarrow> string \<Rightarrow> help_obj \<Rightarrow> JsonObject list \<Rightarrow> help_obj \<times> error option" where
  "deserialize_loop E note_colors dir_grid st [] = (st, None)"
| "deserialize_loop E note_colors dir_grid st (jo # jos) =
     (case deserialize_object E note_colors dir_grid st jo of
        Inl e \<Rightarrow> (st, Some e)
      | Inr st' \<Rightarrow> deserialize_loop E note_colors dir_grid st' jos)"

definition deserialize :: "externals \<Rightarrow> help_obj \<Rightarrow> JsonObject list \<Rightarrow> help_obj \<times> error option" where
  "deserialize E st jos =
     deserialize_loop E (get_note_colors E) (get_dir_grid E) (st\<lparr>hotkeys := []\<rparr>) jos"

subsection \<open>Dynamic placeholders\<close>

text \<open>\<^verbatim>\<open>s.find( needle, pos )\<close> of \<^verbatim>\<open>std::string\<close>, for a needle that is not empty: the first
  index at or after \<open>pos\<close> where the needle starts, \<open>None\<close> for \<^verbatim>\<open>npos\<close>. A start beyond the
  end of the string, \<^verbatim>\<open>npos\<close> itself for one, finds nothing.\<close>

fun first_occurrence :: "string \<Rightarrow> string \<Rightarrow> nat option" where
  "first_occurrence needle [] = None"
| "first_occurrence needle (c # cs) =
     (if prefix needle (c # cs) then Some 0
      else map_option Suc (first_occurrence needle cs))"

definition str_find :: "string \<Rightarrow> string \<Rightarrow> nat \<Rightarrow> nat option" where
  "str_find s needle pos =
     (if length s < pos then None
      else map_option (\<lambda>k. pos + k) (first_occurrence needle (drop pos s)))"

text \<open>\<^verbatim>\<open>line_proc.substr( pos + 7, pos2 - pos - 7 )\<close>: the count is a \<^verbatim>\<open>size_t\<close>. With \<^verbatim>\<open>pos2\<close>
  equal to \<^verbatim>\<open>npos\<close>, or below \<^verbatim>\<open>pos + 7\<close>, the subtraction gives a count beyond any length
  and the substring runs to the end of the line.\<close>

definition action_name :: "string \<Rightarrow> nat \<Rightarrow> nat option \<Rightarrow> string" where
  "action_name line_proc pos pos2 =
     (case pos2 of
        None \<Rightarrow> drop (pos + 7) line_proc
      | Some p2 \<Rightarrow>
          if p2 < pos + 7 then drop (pos + 7) line_proc
          else take (p2 - pos - 7) (drop (pos + 7) line_proc))"

text \<open>The \<^verbatim>\<open>while\<close> loop of the lambda in \<^verbatim>\<open>help::display_help\<close>. The state is the line,
  the position \<^verbatim>\<open>pos\<close> and the messages given to \<^verbatim>\<open>debugmsg\<close> so far. The loop ends when
  \<^verbatim>\<open>pos\<close> is \<^verbatim>\<open>npos\<close>; nothing in the code bounds the number of turns, so the result is an
  option and \<open>None\<close> stands for a loop that never ends.\<close>

partial_function (option) press_loop ::
    "externals \<Rightarrow> string \<Rightarrow> nat option \<Rightarrow> string list \<Rightarrow> (string \<times> string list) option" where
  "press_loop E line_proc pos dbg =
     (case pos of
        None \<Rightarrow> Some (line_proc, dbg)
      | Some p \<Rightarrow>
          (let pos2 = str_find line_proc ''>'' p;
               action = action_name line_proc p pos2;
               replace = ''<color_light_blue>'' @ press_x E action @ ''</color>'';
               line_proc' =
                 (if replace = [] then line_proc
                  else replace_all line_proc (''<press_'' @ action @ ''>'') replace);
               dbg' =
                 (if replace = [] then dbg @ [''Help json: Unknown action: '' @ action]
                  else dbg);
               pos' = (case pos2 of None \<Rightarrow> None | Some p2 \<Rightarrow> str_find line_proc' ''<press_'' p2)
           in press_loop E line_proc' pos' dbg'))"

declare press_loop.simps [code]

text \<open>The lambda: the expanded line and the diagnostics it gave.\<close>

definition expand_press :: "externals \<Rightarrow> string \<Rightarrow> (string \<times> string list) option" where
  "expand_press E line =
     (let line_proc = translate E line
      in press_loop E line_proc (str_find line_proc ''<press_'' 0) [])"

subsection \<open>The detail view\<close>

text \<open>What \<^verbatim>\<open>help::display_help\<close> does to the world: the object, the documents handed to
  \<^verbatim>\<open>scrollable_text\<close>, the diagnostics, and the local variable \<^verbatim>\<open>action\<close>.\<close>

record ui =
  catalog :: "(int32, topic) fmap"
  popups :: "string list"
  diagnostics :: "string list"
  ui_action :: string

text \<open>\<^verbatim>\<open>std::transform\<close> over the messages: the lambda on each line in turn.\<close>

fun transform_lines :: "externals \<Rightarrow> string list \<Rightarrow> (string list \<times> string list) option" where
  "transform_lines E [] = Some ([], [])"
| "transform_lines E (line # lines) =
     (case expand_press E line of
        None \<Rightarrow> None
      | Some (line_proc, dbg) \<Rightarrow>
          (case transform_lines E lines of
             None \<Rightarrow> None
           | Some (rest, dbgs) \<Rightarrow> Some (line_proc # rest, dbg @ dbgs)))"

text \<open>\<^verbatim>\<open>std::accumulate( begin + 1, end, front, lhs + "\n\n" + rhs )\<close>, called on a vector
  that is not empty.\<close>

definition accumulate_paragraphs :: "string list \<Rightarrow> string" where
  "accumulate_paragraphs texts = foldl (\<lambda>lhs rhs. lhs @ [nl, nl] @ rhs) (hd texts) (tl texts)"

text \<open>The body of \<^verbatim>\<open>if( sInput == hotkey )\<close> for the topic at index \<open>i\<close>. The first
  \<^verbatim>\<open>help_texts[i]\<close> inserts an empty topic when the map has none at \<open>i\<close>; the index is a
  \<^verbatim>\<open>size_t\<close> converted to the \<^verbatim>\<open>int\<close> key.\<close>

definition show_topic :: "externals \<Rightarrow> ui \<Rightarrow> nat \<Rightarrow> ui option" where
  "show_topic E u i =
     (let (t, m) = subscript (catalog u) (of_nat i)
      in case transform_lines E (snd t) of
           None \<Rightarrow> None
         | Some (i18n_help_texts, dbgs) \<Rightarrow>
             Some (u\<lparr>catalog := m,
                     popups :=
                       (if i18n_help_texts \<noteq> []
                        then popups u @ [accumulate_paragraphs i18n_help_texts]
                        else popups u),
                     diagnostics := diagnostics u @ dbgs,
                     ui_action := ''CONFIRM''\<rparr>))"

text \<open>The two \<^verbatim>\<open>for\<close> loops over \<^verbatim>\<open>hotkeys\<close>: \<^verbatim>\<open>break\<close> leaves the loop over the hotkeys of
  one topic, and the loop over the topics goes on.\<close>

fun hotkeys_loop :: "externals \<Rightarrow> string \<Rightarrow> string list list \<Rightarrow> nat \<Rightarrow> ui \<Rightarrow> ui option" where
  "hotkeys_loop E sInput [] i u = Some u"
| "hotkeys_loop E sInput (hks # rest) i u =
     (if sInput \<in> set hks
      then (case show_topic E u i of
              None \<Rightarrow> None
            | Some u' \<Rightarrow> hotkeys_loop E sInput rest (Suc i) u')
      else hotkeys_loop E sInput rest (Suc i) u)"

text \<open>The \<^verbatim>\<open>do ... while( action != "QUIT" )\<close> loop, run on the inputs read so far: each is
  the action \<^verbatim>\<open>ctxt.handle_input()\<close> returns and the raw text of the key. The redraw at the
  head of each turn is \<open>draw_menu\<close> below.\<close>

fun display_help ::
    "externals \<Rightarrow> string list list \<Rightarrow> (string \<times> string) list \<Rightarrow> ui \<Rightarrow> ui option" where
  "display_help E hk [] u = Some u"
| "display_help E hk ((act, sInput) # inputs) u =
     (case hotkeys_loop E sInput hk 0 (u\<lparr>ui_action := act\<rparr>) of
        None \<Rightarrow> None
      | Some u' \<Rightarrow>
          if ui_action u' \<noteq> ''QUIT'' then display_help E hk inputs u' else Some u')"

subsection \<open>The menu\<close>

text \<open>Modelled from the spec: \<^verbatim>\<open>divide_round_up\<close> (cata_utility.h is not among the sources),
  half the available width for the divisor 2, rounded up. Widths are never negative.\<close>

definition divide_round_up :: "nat \<Rightarrow> nat \<Rightarrow> nat" where
  "divide_round_up num den = (num + den - 1) div den"

text \<open>One call of \<^verbatim>\<open>shortcut_print\<close>: the column, the row and the label.\<close>

type_synonym print = "nat \<times> nat \<times> string"

text \<open>The \<^verbatim>\<open>for\<close> loop of \<^verbatim>\<open>help::draw_menu\<close>. The bound \<^verbatim>\<open>help_texts.size()\<close> is read again
  at every turn, and \<^verbatim>\<open>help_texts[i]\<close> may have grown the map. The index \<^verbatim>\<open>i\<close> is a
  \<^verbatim>\<open>size_t\<close>, the key an \<^verbatim>\<open>int\<close>: the conversion keeps the low 32 bits.\<close>

function draw_menu_loop ::
    "externals \<Rightarrow> nat \<Rightarrow> nat \<Rightarrow> nat \<Rightarrow> nat \<Rightarrow> (int32, topic) fmap \<Rightarrow> print list \<Rightarrow>
       print list \<times> (int32, topic) fmap" where
  "draw_menu_loop E y half_size i second_column m out =
     (if i < map_size m then
        (let cat_name = translate E (fst (fst (subscript m (of_nat i))));
             m' = snd (subscript m (of_nat i));
             second_column' =
               (if i < half_size then max second_column (utf8_width E cat_name + 4)
                else second_column)
         in draw_menu_loop E y half_size (Suc i) second_column' m'
              (out @ [(if i < half_size then 1 else second_column', y + i mod half_size, cat_name)]))
      else (out, m))"
  by pat_completeness auto
termination
proof (relation "measure (\<lambda>(E, y, half_size, i, second_column, m, out). 2 ^ 32 - i)")
  show "wf (measure (\<lambda>(E, y, half_size, i, second_column, m, out). 2 ^ 32 - i))"
    by simp
next
  fix E :: externals and y half_size i second_column :: nat
    and m :: "(int32, topic) fmap" and out :: "print list"
    and cat_name m' second_column'
  assume "i < map_size m"
  moreover have "card (fmdom' m) \<le> card (UNIV :: int32 set)"
    by (rule card_mono) simp_all
  ultimately have "i < 2 ^ 32"
    by (simp add: map_size_def card_word)
  then show "((E, y, half_size, Suc i, second_column', m',
               out @ [(if i < half_size then 1 else second_column', y + i mod half_size, cat_name)]),
              (E, y, half_size, i, second_column, m, out))
             \<in> measure (\<lambda>(E, y, half_size, i, second_column, m, out). 2 ^ 32 - i)"
    by simp
qed

declare draw_menu_loop.simps [simp del]

text \<open>\<^verbatim>\<open>help::draw_menu\<close>: \<open>maxx\<close> is \<^verbatim>\<open>getmaxx( win )\<close> and \<open>y\<close> the row below the heading
  that \<^verbatim>\<open>fold_and_print\<close> printed. The result is the list of the \<^verbatim>\<open>shortcut_print\<close> calls
  and the object.\<close>

definition draw_menu :: "externals \<Rightarrow> nat \<Rightarrow> nat \<Rightarrow> help_obj \<Rightarrow> print list \<times> help_obj" where
  "draw_menu E maxx y st =
     (let half_size = map_size (help_texts st) div 2 + 1;
          second_column = divide_round_up maxx 2;
          r = draw_menu_loop E y half_size 0 second_column (help_texts st) []
      in (fst r, st\<lparr>help_texts := snd r\<rparr>))"

section \<open>Vocabulary of the properties\<close>

subsection \<open>Well-formed records\<close>

text \<open>A record is well formed when it has its four fields, each of its kind. The three
  functions after it read the fields of such a record.\<close>

definition well_formed :: "JsonObject \<Rightarrow> bool" where
  "well_formed jo =
     (\<not> isl (get_string jo ''type'') \<and> \<not> isl (get_string jo ''name'') \<and>
      \<not> isl (get_int jo ''order'') \<and>
      (case map_of jo ''messages'' of Some (JStrings ms) \<Rightarrow> True | _ \<Rightarrow> False))"

definition name_of :: "JsonObject \<Rightarrow> string" where
  "name_of jo = (case get_string jo ''name'' of Inr n \<Rightarrow> n | Inl e \<Rightarrow> [])"

definition order_of :: "JsonObject \<Rightarrow> int32" where
  "order_of jo = (case get_int jo ''order'' of Inr k \<Rightarrow> k | Inl e \<Rightarrow> 0)"

definition messages_of :: "JsonObject \<Rightarrow> string list" where
  "messages_of jo = (case map_of jo ''messages'' of Some (JStrings ms) \<Rightarrow> ms | _ \<Rightarrow> [])"

text \<open>The topic a well-formed record leaves in the map, and the map after the record.\<close>

definition stored_topic :: "externals \<Rightarrow> string \<Rightarrow> string \<Rightarrow> JsonObject \<Rightarrow> topic" where
  "stored_topic E nc dg jo = (name_of jo, map (expand_static E nc dg) (messages_of jo))"

definition store ::
    "externals \<Rightarrow> string \<Rightarrow> string \<Rightarrow> JsonObject \<Rightarrow> (int32, topic) fmap \<Rightarrow> (int32, topic) fmap" where
  "store E nc dg jo m = fmupd (order_of jo) (stored_topic E nc dg jo) m"

definition loaded_topic :: "externals \<Rightarrow> JsonObject \<Rightarrow> topic" where
  "loaded_topic E jo = stored_topic E (get_note_colors E) (get_dir_grid E) jo"

subsection \<open>Missing fields and whole-line tokens\<close>

text \<open>A record lacks a field when it has no member of that name. The expansion of a line
  at load time, as a table: the three tokens, each as the whole line.\<close>

definition lacks :: "JsonObject \<Rightarrow> string \<Rightarrow> bool" where
  "lacks jo name = (map_of jo name = None)"

definition whole_line_expansion :: "externals \<Rightarrow> string \<Rightarrow> string" where
  "whole_line_expansion E line =
     (if line = ''<DRAW_NOTE_COLORS>'' then get_note_colors E
      else if line = ''<HELP_DRAW_DIRECTIONS>'' then get_dir_grid E
      else if line = ''<GAME_DIRECTORIES>'' then resolved_game_paths E
      else line)"

subsection \<open>The diagram with its slots filled\<close>

text \<open>The seven lines of the diagram of \<^verbatim>\<open>get_dir_grid\<close> with a text in each of the eighteen
  slots: \<open>slot dir i\<close> stands where the template has the slot \<open>i\<close> of the direction
  \<open>dir\<close>. A bound key is shown in light blue, a missing one as a red question mark.\<close>

definition filled_diagram :: "(action_id \<Rightarrow> nat \<Rightarrow> string) \<Rightarrow> string" where
  "filled_diagram slot =
     slot ACTION_MOVE_FORTH_LEFT 0 @ ''  '' @ slot ACTION_MOVE_FORTH 0 @ ''  '' @
       slot ACTION_MOVE_FORTH_RIGHT 0 @ ''   '' @
       slot ACTION_MOVE_FORTH_LEFT 1 @ ''  '' @ slot ACTION_MOVE_FORTH 1 @ ''  '' @
       slot ACTION_MOVE_FORTH_RIGHT 1 @ [nl] @
     '' '' @ [bs] @ '' | /     '' @ [bs] @ '' | /'' @ [nl] @
     ''  '' @ [bs] @ ''|/       '' @ [bs] @ ''|/'' @ [nl] @
     slot ACTION_MOVE_LEFT 0 @ ''--'' @ slot ACTION_PAUSE 0 @ ''--'' @
       slot ACTION_MOVE_RIGHT 0 @ ''   '' @
       slot ACTION_MOVE_LEFT 1 @ ''--'' @ slot ACTION_PAUSE 1 @ ''--'' @
       slot ACTION_MOVE_RIGHT 1 @ [nl] @
     ''  /|'' @ [bs] @ ''       /|'' @ [bs] @ [nl] @
     '' / | '' @ [bs] @ ''     / | '' @ [bs] @ [nl] @
     slot ACTION_MOVE_BACK_LEFT 0 @ ''  '' @ slot ACTION_MOVE_BACK 0 @ ''  '' @
       slot ACTION_MOVE_BACK_RIGHT 0 @ ''   '' @
       slot ACTION_MOVE_BACK_LEFT 1 @ ''  '' @ slot ACTION_MOVE_BACK 1 @ ''  '' @
       slot ACTION_MOVE_BACK_RIGHT 1"

definition blue_key :: "char \<Rightarrow> string" where
  "blue_key c = ''<color_light_blue>'' @ [c] @ ''</color>''"

definition red_mark :: string where
  "red_mark = ''<color_red>?</color>''"

subsection \<open>Joining paragraphs\<close>

text \<open>The paragraphs in their order, with two line feeds between neighbours.\<close>

fun join_paragraphs :: "string list \<Rightarrow> string" where
  "join_paragraphs [] = []"
| "join_paragraphs [x] = x"
| "join_paragraphs (x # y # ys) = x @ [nl, nl] @ join_paragraphs (y # ys)"

subsection \<open>The prints of the menu\<close>

text \<open>The parts of a print; the topic \<^verbatim>\<open>help_texts[k]\<close> reads; the label and the print of
  the menu entry of an index, given the map after the drawing and the final value of
  \<^verbatim>\<open>second_column\<close>; the value of \<^verbatim>\<open>second_column\<close> after the labels of the first column;
  and the width of the longest label among some prints.\<close>

definition column :: "print \<Rightarrow> nat" where
  "column p = fst p"

definition row :: "print \<Rightarrow> nat" where
  "row p = fst (snd p)"

definition label :: "print \<Rightarrow> string" where
  "label p = snd (snd p)"

definition topic_at :: "(int32, topic) fmap \<Rightarrow> int32 \<Rightarrow> topic" where
  "topic_at m k = (case fmlookup m k of Some t \<Rightarrow> t | None \<Rightarrow> default_topic)"

definition menu_label :: "externals \<Rightarrow> (int32, topic) fmap \<Rightarrow> nat \<Rightarrow> string" where
  "menu_label E m j = translate E (fst (topic_at m (of_nat j)))"

definition widen :: "externals \<Rightarrow> nat \<Rightarrow> string list \<Rightarrow> nat" where
  "widen E second_column labels = foldl (\<lambda>sc l. max sc (utf8_width E l + 4)) second_column labels"

definition menu_entry :: "externals \<Rightarrow> nat \<Rightarrow> nat \<Rightarrow> nat \<Rightarrow> (int32, topic) fmap \<Rightarrow> nat \<Rightarrow> print" where
  "menu_entry E y half_size second_column m j =
     (if j < half_size then 1 else second_column, y + j mod half_size, menu_label E m j)"

definition longest_label :: "externals \<Rightarrow> print list \<Rightarrow> nat" where
  "longest_label E ps = foldr (\<lambda>p w. max (utf8_width E (label p)) w) ps 0"

subsection \<open>Counting tokens\<close>

text \<open>The number of places of a text where the needle starts.\<close>

fun occurrences :: "string \<Rightarrow> string \<Rightarrow> nat" where
  "occurrences needle [] = 0"
| "occurrences needle (c # cs) = (if prefix needle (c # cs) then 1 else 0) + occurrences needle cs"

subsection \<open>Concrete inputs\<close>

definition demo_externals :: externals where
  "demo_externals =
     \<lparr>translate = (\<lambda>s. s),
      note_color_names = [(''r'', ''red'')],
      colorize_note = (\<lambda>s. s),
      keys_bound_to =
        (\<lambda>d. if d = ACTION_MOVE_LEFT then ''hH'' else if d = ACTION_MOVE_FORTH then ''k'' else []),
      resolved_game_paths = ''/data'',
      get_hotkeys = (\<lambda>s. [take 1 s]),
      press_x = (\<lambda>a. if a = ''pause'' then ''.'' else []),
      utf8_width = length,
      read_rejects_absent = False\<rparr>"

text \<open>The same, with a JSON reader whose \<^verbatim>\<open>read\<close> throws on an absent member.\<close>

definition strict_externals :: externals where
  "strict_externals = demo_externals\<lparr>read_rejects_absent := True\<rparr>"

text \<open>The same, with the action \<^verbatim>\<open>pause\<close> bound to the key \<^verbatim>\<open><\<close>.\<close>

definition angle_externals :: externals where
  "angle_externals = demo_externals\<lparr>press_x := (\<lambda>a. if a = ''pause'' then ''<'' else [])\<rparr>"

definition record_movement :: JsonObject where
  "record_movement =
     [(''type'', JString ''help''), (''order'', JInt 0), (''name'', JString ''Movement''),
      (''messages'', JStrings [''Walk.'', ''<GAME_DIRECTORIES>''])]"

definition record_items :: JsonObject where
  "record_items =
     [(''type'', JString ''help''), (''order'', JInt 2), (''name'', JString ''Items''),
      (''messages'', JStrings [''Pick up.''])]"

definition record_colors :: JsonObject where
  "record_colors =
     [(''type'', JString ''help''), (''order'', JInt 1), (''name'', JString ''Colors''),
      (''messages'', JStrings [''<DRAW_NOTE_COLORS>'', ''See <DRAW_NOTE_COLORS>''])]"

definition record_nameless :: JsonObject where
  "record_nameless =
     [(''type'', JString ''help''), (''order'', JInt 1), (''messages'', JStrings [''Lost.''])]"

definition record_messageless :: JsonObject where
  "record_messageless =
     [(''type'', JString ''help''), (''order'', JInt 1), (''name'', JString ''Colors'')]"

definition stale_object :: help_obj where
  "stale_object = \<lparr>help_texts = fmupd 5 (''Old'', [''Gone.'']) fmempty, hotkeys = [[''O'']]\<rparr>"

definition record_first :: JsonObject where
  "record_first =
     [(''type'', JString ''help''), (''order'', JInt 1), (''name'', JString ''Bravo''),
      (''messages'', JStrings [])]"

definition record_second :: JsonObject where
  "record_second =
     [(''type'', JString ''help''), (''order'', JInt 0), (''name'', JString ''Alpha''),
      (''messages'', JStrings [])]"

definition demo_ui :: ui where
  "demo_ui =
     \<lparr>catalog = fmupd 1 (''Items'', []) (fmupd 0 (''Movement'', [''Walk.'', ''Wait: <press_pause>'']) fmempty),
      popups = [], diagnostics = [], ui_action = []\<rparr>"



definition dense_object :: help_obj where
  "dense_object =
     \<lparr>help_texts =
        fmupd 2 (''Craft'', []) (fmupd 1 (''Items'', []) (fmupd 0 (''Movement'', []) fmempty)),
      hotkeys = [[''M''], [''I''], [''C'']]\<rparr>"

section \<open>Properties\<close>

subsection \<open>Loading well-formed records\<close>

lemma deserialize_object_well_formed:
  assumes "well_formed jo"
  shows "deserialize_object E nc dg st jo =
           Inr (st\<lparr>help_texts := store E nc dg jo (help_texts st),
                   hotkeys := hotkeys st @ [get_hotkeys E (name_of jo)]\<rparr>)"
  using assms
  by (auto simp: well_formed_def deserialize_object_def read_strings_def store_def stored_topic_def
        name_of_def order_of_def messages_of_def
        split: option.splits json_value.splits sum.splits)

lemma deserialize_loop_well_formed:
  assumes "\<forall>jo \<in> set jos. well_formed jo"
  shows "deserialize_loop E nc dg st jos =
           (st\<lparr>help_texts := fold (store E nc dg) jos (help_texts st),
               hotkeys := hotkeys st @ map (\<lambda>jo. get_hotkeys E (name_of jo)) jos\<rparr>, None)"
  using assms
proof (induction jos arbitrary: st)
  case Nil
  then show ?case by simp
next
  case (Cons jo jos)
  then show ?case by (simp add: deserialize_object_well_formed)
qed

lemma lookup_fold_store:
  "fmlookup (fold (store E nc dg) jos m) k =
     (case find (\<lambda>jo. order_of jo = k) (rev jos) of
        None \<Rightarrow> fmlookup m k
      | Some jo \<Rightarrow> Some (stored_topic E nc dg jo))"
proof (induction jos rule: rev_induct)
  case Nil
  then show ?case by simp
next
  case (snoc jo jos)
  then show ?case
    by (simp add: store_def)
qed

lemma dom_fold_store:
  "fmdom' (fold (store E nc dg) jos m) = fmdom' m \<union> order_of ` set jos"
  by (induction jos arbitrary: m) (auto simp: store_def)

lemma card_dom_fold_store:
  assumes "distinct (map order_of jos)"
  shows "card (fmdom' (fold (store E nc dg) jos fmempty)) = length jos"
proof -
  have "card (order_of ` set jos) = length jos"
    using distinct_card [OF assms] by simp
  then show ?thesis by (simp add: dom_fold_store)
qed

lemma find_last_distinct:
  assumes "distinct (map f xs)" "x \<in> set xs"
  shows "find (\<lambda>y. f y = f x) (rev xs) = Some x"
  using assms
proof (induction xs rule: rev_induct)
  case Nil
  then show ?case by simp
next
  case (snoc y ys)
  then show ?case by (auto simp: image_iff)
qed

lemma deserialize_well_formed:
  assumes "\<forall>jo \<in> set jos. well_formed jo"
  shows "deserialize E st jos =
           (\<lparr>help_texts = fold (store E (get_note_colors E) (get_dir_grid E)) jos (help_texts st),
             hotkeys = map (\<lambda>jo. get_hotkeys E (name_of jo)) jos\<rparr>, None)"
  by (simp add: deserialize_def deserialize_loop_well_formed [OF assms])

lemma deserialize_object_Inr:
  assumes "deserialize_object E nc dg st jo = Inr st'"
  shows "st' = st\<lparr>help_texts := store E nc dg jo (help_texts st),
                   hotkeys := hotkeys st @ [get_hotkeys E (name_of jo)]\<rparr>"
  using assms
  by (auto simp: deserialize_object_def read_strings_def get_string_def get_int_def store_def
        stored_topic_def name_of_def order_of_def messages_of_def
        split: option.splits json_value.splits sum.splits if_splits)

lemma deserialize_loop_prefix:
  "\<exists>n \<le> length jos.
     deserialize_loop E nc dg st jos =
       (st\<lparr>help_texts := fold (store E nc dg) (take n jos) (help_texts st),
           hotkeys := hotkeys st @ map (\<lambda>jo. get_hotkeys E (name_of jo)) (take n jos)\<rparr>,
        if n = length jos then None else Some DataError)"
proof (induction jos arbitrary: st)
  case Nil
  then show ?case by simp
next
  case (Cons jo jos)
  show ?case
  proof (cases "deserialize_object E nc dg st jo")
    case (Inl e)
    then have "deserialize_loop E nc dg st (jo # jos) = (st, Some DataError)"
      by (cases e) simp
    then show ?thesis
      by (intro exI [of _ 0]) simp
  next
    case (Inr st1)
    from Cons.IH [of st1] obtain n where n: "n \<le> length jos"
      "deserialize_loop E nc dg st1 jos =
         (st1\<lparr>help_texts := fold (store E nc dg) (take n jos) (help_texts st1),
              hotkeys := hotkeys st1 @ map (\<lambda>jo. get_hotkeys E (name_of jo)) (take n jos)\<rparr>,
          if n = length jos then None else Some DataError)"
      by blast
    show ?thesis
      using n Inr deserialize_object_Inr [OF Inr]
      by (intro exI [of _ "Suc n"]) simp
  qed
qed

lemma lookup_fold_store_other:
  assumes "k \<notin> order_of ` set jos"
  shows "fmlookup (fold (store E nc dg) jos m) k = fmlookup m k"
  using assms by (induction jos arbitrary: m) (auto simp: store_def)

lemma replace_all_whole:
  assumes "token \<noteq> []"
  shows "replace_all token token subst = subst"
  using assms by (simp add: replace_all.simps [of token] replace_all.simps [of "[]"])

lemma expand_static_cases:
  "expand_static E nc dg line =
     (if line = ''<DRAW_NOTE_COLORS>'' then nc
      else if line = ''<HELP_DRAW_DIRECTIONS>'' then dg
      else if line = ''<GAME_DIRECTORIES>'' then resolved_game_paths E
      else line)"
  by (simp add: expand_static_def replace_all_whole)

lemma expand_static_whole_line:
  "expand_static E (get_note_colors E) (get_dir_grid E) line = whole_line_expansion E line"
  by (simp add: expand_static_cases whole_line_expansion_def)

lemma deserialize_object_lacks:
  assumes "lacks jo ''type'' \<or> lacks jo ''name'' \<or> lacks jo ''order'' \<or>
           (read_rejects_absent E \<and> lacks jo ''messages'')"
  shows "deserialize_object E nc dg st jo = Inl DataError"
  using assms
  by (auto simp: lacks_def deserialize_object_def read_strings_def get_string_def get_int_def
        split: option.splits json_value.splits sum.splits error.splits)


lemma deserialize_object_messageless:
  assumes "lacks jo ''messages''" and "\<not> read_rejects_absent E"
    and "\<not> isl (get_string jo ''type'')" and "\<not> isl (get_string jo ''name'')"
    and "\<not> isl (get_int jo ''order'')"
  shows "deserialize_object E nc dg st jo =
           Inr (st\<lparr>help_texts := fmupd (order_of jo) (name_of jo, []) (help_texts st),
                   hotkeys := hotkeys st @ [get_hotkeys E (name_of jo)]\<rparr>)"
  using assms
  by (auto simp: lacks_def deserialize_object_def read_strings_def name_of_def order_of_def
        split: sum.splits)

lemma deserialize_loop_messageless:
  assumes "\<forall>jo \<in> set pre. well_formed jo"
    and "lacks jo ''messages''" and "\<not> read_rejects_absent E"
    and "\<not> isl (get_string jo ''type'')" and "\<not> isl (get_string jo ''name'')"
    and "\<not> isl (get_int jo ''order'')"
    and "\<forall>jo \<in> set post. well_formed jo"
  shows "deserialize_loop E nc dg s (pre @ jo # post) =
           (s\<lparr>help_texts := fold (store E nc dg) post
                  (fmupd (order_of jo) (name_of jo, []) (fold (store E nc dg) pre (help_texts s))),
              hotkeys := hotkeys s @ map (\<lambda>jo. get_hotkeys E (name_of jo)) (pre @ jo # post)\<rparr>, None)"
  using assms(1)
proof (induction pre arbitrary: s)
  case Nil
  then show ?case
    by (simp add: deserialize_object_messageless [OF assms(2-6)]
          deserialize_loop_well_formed [OF assms(7)])
next
  case (Cons a pre)
  then show ?case by (simp add: deserialize_object_well_formed)
qed

lemma demo_records:
  "well_formed record_movement" "well_formed record_items" "well_formed record_colors"
  "well_formed record_first" "well_formed record_second"
  "order_of record_movement = 0" "order_of record_items = 2" "order_of record_colors = 1"
  "order_of record_first = 1" "order_of record_second = 0"
  "name_of record_movement = ''Movement''" "name_of record_items = ''Items''"
  "name_of record_colors = ''Colors''"
  "name_of record_first = ''Bravo''" "name_of record_second = ''Alpha''"
  "messages_of record_movement = [''Walk.'', ''<GAME_DIRECTORIES>'']"
  "messages_of record_items = [''Pick up.'']"
  "messages_of record_colors = [''<DRAW_NOTE_COLORS>'', ''See <DRAW_NOTE_COLORS>'']"
  "messages_of record_first = []" "messages_of record_second = []"
  by (simp_all add: well_formed_def order_of_def name_of_def messages_of_def get_string_def
        get_int_def record_movement_def record_items_def record_colors_def record_first_def
        record_second_def)

text \<open>
  C4. Loading N well-formed records into a new object succeeds. The topic found at a key
  is the one of the last record that carries this order, and no other key holds a topic.
  When the orders are pairwise distinct, the map has exactly N topics and every record
  is found at its order.
\<close>

theorem load_last_record_wins:
  assumes "\<forall>jo \<in> set jos. well_formed jo"
  shows "\<exists>st'. deserialize E new_help jos = (st', None) \<and>
           (\<forall>k. fmlookup (help_texts st') k =
                  map_option (loaded_topic E) (find (\<lambda>jo. order_of jo = k) (rev jos))) \<and>
           (distinct (map order_of jos) \<longrightarrow>
              map_size (help_texts st') = length jos \<and>
              (\<forall>jo \<in> set jos. fmlookup (help_texts st') (order_of jo) = Some (loaded_topic E jo)))"
proof -
  let ?nc = "get_note_colors E" and ?dg = "get_dir_grid E"
  let ?m = "fold (store E ?nc ?dg) jos fmempty"
  let ?st = "\<lparr>help_texts = ?m, hotkeys = map (\<lambda>jo. get_hotkeys E (name_of jo)) jos\<rparr>"
  have run: "deserialize E new_help jos = (?st, None)"
    using deserialize_well_formed [OF assms, of E new_help] by (simp add: new_help_def)
  have last: "fmlookup ?m k = map_option (loaded_topic E) (find (\<lambda>jo. order_of jo = k) (rev jos))"
    for k
    by (simp add: lookup_fold_store loaded_topic_def split: option.splits)
  have count: "map_size ?m = length jos" if "distinct (map order_of jos)"
    using card_dom_fold_store [OF that] by (simp add: map_size_def)
  have each: "fmlookup ?m (order_of jo) = Some (loaded_topic E jo)"
    if "distinct (map order_of jos)" "jo \<in> set jos" for jo
    using find_last_distinct [OF that] by (simp add: last)
  show ?thesis
    using run last count each by simp
qed

theorem load_last_record_wins_witness:
  "well_formed record_movement \<and> well_formed record_items \<and>
   distinct (map order_of [record_movement, record_items]) \<and>
   (\<exists>st'. deserialize demo_externals new_help [record_movement, record_items] = (st', None) \<and>
      map_size (help_texts st') = 2 \<and>
      map_option fst (fmlookup (help_texts st') 0) = Some ''Movement'' \<and>
      map_option fst (fmlookup (help_texts st') 2) = Some ''Items'' \<and>
      fmlookup (help_texts st') 1 = None)"
proof -
  have wf: "\<forall>jo \<in> set [record_movement, record_items]. well_formed jo"
    by (simp add: well_formed_def record_movement_def record_items_def get_string_def get_int_def)
  have orders: "order_of record_movement = 0" "order_of record_items = 2"
    by (simp_all add: order_of_def record_movement_def record_items_def get_int_def)
  have names: "name_of record_movement = ''Movement''" "name_of record_items = ''Items''"
    by (simp_all add: name_of_def record_movement_def record_items_def get_string_def)
  have dist: "distinct (map order_of [record_movement, record_items])"
    by (simp add: orders)
  from load_last_record_wins [OF wf, of demo_externals]
  obtain st' where st':
      "deserialize demo_externals new_help [record_movement, record_items] = (st', None)"
      "\<And>k. fmlookup (help_texts st') k =
         map_option (loaded_topic demo_externals)
           (find (\<lambda>jo. order_of jo = k) (rev [record_movement, record_items]))"
      "map_size (help_texts st') = length [record_movement, record_items]"
    using dist by blast
  have "map_option fst (fmlookup (help_texts st') 0) = Some ''Movement''"
       "map_option fst (fmlookup (help_texts st') 2) = Some ''Items''"
       "fmlookup (help_texts st') 1 = None"
    by (simp_all add: st'(2) orders names loaded_topic_def stored_topic_def)
  with wf dist st'(1,3) show ?thesis by simp
qed

subsection \<open>Steps of the string functions\<close>

text \<open>Running \<open>replace_all\<close> on a text whose head is known.\<close>

lemma replace_all_Nil: "replace_all [] token subst = []"
  by (simp add: replace_all.simps)

lemma replace_all_Cons:
  "replace_all (c # cs) token subst =
     (if token = [] then c # cs
      else if prefix token (c # cs)
        then subst @ replace_all (drop (length token) (c # cs)) token subst
        else c # replace_all cs token subst)"
  by (simp add: replace_all.simps [of "c # cs"])

subsection \<open>Static tokens\<close>

text \<open>
  C1. The load replaces a message line that is, as a whole, one of the three
  static tokens by the expansion of that token, and stores every other line unchanged,
  a line that contains a token among other text included: the topic found at the order
  of a well-formed record holds the lines of the record mapped by the table
  \<open>whole_line_expansion\<close>.
\<close>

theorem static_token_lines:
  assumes "\<forall>jo \<in> set jos. well_formed jo" and "distinct (map order_of jos)" and "jo \<in> set jos"
  shows "\<exists>st'. deserialize E st jos = (st', None) \<and>
           fmlookup (help_texts st') (order_of jo) =
             Some (name_of jo, map (whole_line_expansion E) (messages_of jo))"
proof -
  have "map (expand_static E (get_note_colors E) (get_dir_grid E)) ms = map (whole_line_expansion E) ms"
    for ms
    by (simp add: expand_static_whole_line)
  then show ?thesis
    using find_last_distinct [OF assms(2,3)]
    by (simp add: deserialize_well_formed [OF assms(1)] lookup_fold_store stored_topic_def)
qed

theorem static_token_lines_witness:
  "well_formed record_colors \<and> distinct (map order_of [record_movement, record_colors]) \<and>
   (\<exists>st'. deserialize demo_externals new_help [record_movement, record_colors] = (st', None) \<and>
      fmlookup (help_texts st') 1 =
        Some (''Colors'', [''Note colors: r:red, '', ''See <DRAW_NOTE_COLORS>'']))"
proof -
  have wf: "\<forall>jo \<in> set [record_movement, record_colors]. well_formed jo"
    by (simp add: demo_records)
  have dist: "distinct (map order_of [record_movement, record_colors])"
    by (simp add: demo_records)
  have nc: "get_note_colors demo_externals = ''Note colors: r:red, ''"
    by (simp add: get_note_colors_def demo_externals_def)
  from static_token_lines [OF wf dist, of record_colors demo_externals new_help]
  show ?thesis
    using dist by (simp add: demo_records whole_line_expansion_def nc)
qed

text \<open>A line that contains the token \<^verbatim>\<open><DRAW_NOTE_COLORS>\<close> after other text is stored as
  it is, next to a line that is the token and is replaced.\<close>

theorem static_token_inside_line_counterexample:
  "fmlookup (help_texts (fst (deserialize demo_externals new_help [record_colors]))) 1 =
     Some (''Colors'', [''Note colors: r:red, '', ''See <DRAW_NOTE_COLORS>''])"
proof -
  have nc: "get_note_colors demo_externals = ''Note colors: r:red, ''"
    by (simp add: get_note_colors_def demo_externals_def)
  have "\<forall>jo \<in> set [record_colors]. well_formed jo"
    by (simp add: demo_records)
  from deserialize_well_formed [OF this, of demo_externals new_help]
  show ?thesis
    by (simp add: store_def stored_topic_def demo_records expand_static_cases nc)
qed

subsection \<open>Records with a missing field\<close>

text \<open>
  C2. The records before the one that misses a field are well formed. A record that
  lacks \<^verbatim>\<open>type\<close>, \<^verbatim>\<open>name\<close> or \<^verbatim>\<open>order\<close> stops the load with a DataError, and so does a
  record that lacks \<^verbatim>\<open>messages\<close> when the JSON reader throws on an absent member. The
  object then holds the topics of the records before it, on top of the topics it held
  before the load, and the hotkeys of those records only. When the reader only reports
  an absent member in the result that \<^verbatim>\<open>deserialize\<close> discards, a record that lacks
  \<^verbatim>\<open>messages\<close> and has the three other fields is stored as a topic with no paragraph, and
  the load goes on: with well-formed records after it, it ends with no error.
\<close>

theorem missing_field_stops_load:
  assumes "\<forall>jo \<in> set pre. well_formed jo"
  shows "(lacks jo ''type'' \<or> lacks jo ''name'' \<or> lacks jo ''order'' \<or>
          (read_rejects_absent E \<and> lacks jo ''messages'') \<longrightarrow>
            deserialize E st (pre @ jo # post) =
              (\<lparr>help_texts = fold (store E (get_note_colors E) (get_dir_grid E)) pre (help_texts st),
                hotkeys = map (\<lambda>jo. get_hotkeys E (name_of jo)) pre\<rparr>, Some DataError)) \<and>
         (lacks jo ''messages'' \<and> \<not> read_rejects_absent E \<and>
          \<not> isl (get_string jo ''type'') \<and> \<not> isl (get_string jo ''name'') \<and>
          \<not> isl (get_int jo ''order'') \<and> (\<forall>jo \<in> set post. well_formed jo) \<longrightarrow>
            deserialize E st (pre @ jo # post) =
              (\<lparr>help_texts =
                  fold (store E (get_note_colors E) (get_dir_grid E)) post
                    (fmupd (order_of jo) (name_of jo, [])
                       (fold (store E (get_note_colors E) (get_dir_grid E)) pre (help_texts st))),
                hotkeys = map (\<lambda>jo. get_hotkeys E (name_of jo)) (pre @ jo # post)\<rparr>, None))"
proof -
  have stops: "deserialize_loop E nc dg s (pre @ jo # post) =
          (s\<lparr>help_texts := fold (store E nc dg) pre (help_texts s),
             hotkeys := hotkeys s @ map (\<lambda>jo. get_hotkeys E (name_of jo)) pre\<rparr>, Some DataError)"
    if missing: "lacks jo ''type'' \<or> lacks jo ''name'' \<or> lacks jo ''order'' \<or>
         (read_rejects_absent E \<and> lacks jo ''messages'')"
    for nc dg s
    using assms(1)
  proof (induction pre arbitrary: s)
    case Nil
    then show ?case by (simp add: deserialize_object_lacks [OF missing])
  next
    case (Cons a pre)
    then show ?case by (simp add: deserialize_object_well_formed)
  qed
  have "deserialize E st (pre @ jo # post) =
          (\<lparr>help_texts = fold (store E (get_note_colors E) (get_dir_grid E)) pre (help_texts st),
            hotkeys = map (\<lambda>jo. get_hotkeys E (name_of jo)) pre\<rparr>, Some DataError)"
    if "lacks jo ''type'' \<or> lacks jo ''name'' \<or> lacks jo ''order'' \<or>
         (read_rejects_absent E \<and> lacks jo ''messages'')"
    using stops [OF that] by (simp add: deserialize_def)
  moreover have "deserialize E st (pre @ jo # post) =
          (\<lparr>help_texts =
              fold (store E (get_note_colors E) (get_dir_grid E)) post
                (fmupd (order_of jo) (name_of jo, [])
                   (fold (store E (get_note_colors E) (get_dir_grid E)) pre (help_texts st))),
            hotkeys = map (\<lambda>jo. get_hotkeys E (name_of jo)) (pre @ jo # post)\<rparr>, None)"
    if "lacks jo ''messages''" "\<not> read_rejects_absent E"
      "\<not> isl (get_string jo ''type'')" "\<not> isl (get_string jo ''name'')"
      "\<not> isl (get_int jo ''order'')" "\<forall>jo \<in> set post. well_formed jo"
    using deserialize_loop_messageless [OF assms that] by (simp add: deserialize_def)
  ultimately show ?thesis
    by blast
qed

theorem missing_field_stops_load_witness:
  "well_formed record_movement \<and> well_formed record_items \<and>
   lacks record_nameless ''name'' \<and>
   deserialize demo_externals new_help [record_movement, record_nameless, record_items] =
     (\<lparr>help_texts = fmupd 0 (''Movement'', [''Walk.'', ''/data'']) fmempty, hotkeys = [[''M'']]\<rparr>,
      Some DataError) \<and>
   lacks record_messageless ''messages'' \<and> read_rejects_absent strict_externals \<and>
   deserialize strict_externals new_help [record_movement, record_messageless, record_items] =
     (\<lparr>help_texts = fmupd 0 (''Movement'', [''Walk.'', ''/data'']) fmempty, hotkeys = [[''M'']]\<rparr>,
      Some DataError) \<and>
   \<not> read_rejects_absent demo_externals \<and>
   deserialize demo_externals new_help [record_movement, record_messageless, record_items] =
     (\<lparr>help_texts =
         fmupd 2 (''Items'', [''Pick up.''])
           (fmupd 1 (''Colors'', []) (fmupd 0 (''Movement'', [''Walk.'', ''/data'']) fmempty)),
       hotkeys = [[''M''], [''C''], [''I'']]\<rparr>, None)"
proof -
  have wf: "\<forall>jo \<in> set [record_movement]. well_formed jo"
    and wf': "\<forall>jo \<in> set [record_items]. well_formed jo"
    by (simp_all add: demo_records)
  have nameless: "lacks record_nameless ''name''"
    by (simp add: lacks_def record_nameless_def)
  have messageless: "lacks record_messageless ''messages''"
    "\<not> isl (get_string record_messageless ''type'')"
    "\<not> isl (get_string record_messageless ''name'')"
    "\<not> isl (get_int record_messageless ''order'')"
    "order_of record_messageless = 1" "name_of record_messageless = ''Colors''"
    by (simp_all add: lacks_def record_messageless_def get_string_def get_int_def
          order_of_def name_of_def)
  have strict: "read_rejects_absent strict_externals"
    and lax: "\<not> read_rejects_absent demo_externals"
    by (simp_all add: strict_externals_def demo_externals_def)
  note load = missing_field_stops_load [OF wf, where st = new_help and post = "[record_items]"]
  from load [of record_nameless demo_externals] nameless
  have 1: "deserialize demo_externals new_help [record_movement, record_nameless, record_items] =
     (\<lparr>help_texts = fmupd 0 (''Movement'', [''Walk.'', ''/data'']) fmempty, hotkeys = [[''M'']]\<rparr>,
      Some DataError)"
    by (simp add: demo_records store_def stored_topic_def expand_static_cases new_help_def)
      (simp add: demo_externals_def)
  from load [of record_messageless strict_externals] messageless(1) strict
  have 2: "deserialize strict_externals new_help [record_movement, record_messageless, record_items] =
     (\<lparr>help_texts = fmupd 0 (''Movement'', [''Walk.'', ''/data'']) fmempty, hotkeys = [[''M'']]\<rparr>,
      Some DataError)"
    by (simp add: demo_records store_def stored_topic_def expand_static_cases new_help_def)
      (simp add: strict_externals_def demo_externals_def)
  from load [of record_messageless demo_externals] messageless lax wf'
  have 3: "deserialize demo_externals new_help [record_movement, record_messageless, record_items] =
     (\<lparr>help_texts =
         fmupd 2 (''Items'', [''Pick up.''])
           (fmupd 1 (''Colors'', []) (fmupd 0 (''Movement'', [''Walk.'', ''/data'']) fmempty)),
       hotkeys = [[''M''], [''C''], [''I'']]\<rparr>, None)"
    by (simp add: demo_records store_def stored_topic_def expand_static_cases new_help_def)
      (simp add: demo_externals_def)
  show ?thesis
    using 1 2 3 nameless messageless(1) strict lax by (simp add: demo_records)
qed

text \<open>A load that fails at its second record leaves the first record in the map. With a
  reader that does not throw on an absent member, a record without \<^verbatim>\<open>messages\<close> is loaded
  with no error, as a topic with no paragraph.\<close>

theorem missing_field_counterexample:
  "snd (deserialize demo_externals new_help [record_movement, record_nameless]) = Some DataError \<and>
   fmlookup (help_texts (fst (deserialize demo_externals new_help [record_movement, record_nameless]))) 0 =
     Some (''Movement'', [''Walk.'', ''/data'']) \<and>
   lacks record_messageless ''messages'' \<and>
   deserialize demo_externals new_help [record_messageless] =
     (\<lparr>help_texts = fmupd 1 (''Colors'', []) fmempty, hotkeys = [[''C'']]\<rparr>, None)"
proof -
  have "deserialize_object demo_externals nc dg s record_nameless = Inl DataError" for nc dg s
    by (rule deserialize_object_lacks) (simp add: lacks_def record_nameless_def)
  then have "deserialize demo_externals new_help [record_movement, record_nameless] =
      (\<lparr>help_texts = fmupd 0 (''Movement'', [''Walk.'', ''/data'']) fmempty, hotkeys = [[''M'']]\<rparr>,
       Some DataError)"
    by (simp add: deserialize_def deserialize_object_well_formed demo_records store_def
          stored_topic_def expand_static_cases new_help_def)
      (simp add: demo_externals_def)
  moreover have "lacks record_messageless ''messages''"
    by (simp add: lacks_def record_messageless_def)
  moreover have "deserialize demo_externals new_help [record_messageless] =
     (\<lparr>help_texts = fmupd 1 (''Colors'', []) fmempty, hotkeys = [[''C'']]\<rparr>, None)"
    by (simp add: deserialize_def deserialize_object_def read_strings_def get_string_def
          get_int_def record_messageless_def new_help_def)
      (simp add: demo_externals_def)
  ultimately show ?thesis by simp
qed
subsection \<open>Reloading\<close>

lemma hotkeys_without_topic_on_reload:
  "\<exists>E' st0 recs. (\<forall>jo \<in> set recs. well_formed jo) \<and> distinct (map order_of recs) \<and>
     (\<forall>i < length recs. order_of (recs ! i) = of_nat i) \<and>
     snd (deserialize E' st0 recs) = None \<and>
     length (hotkeys (fst (deserialize E' st0 recs))) \<noteq>
       map_size (help_texts (fst (deserialize E' st0 recs)))"
proof -
  have wf: "\<forall>jo \<in> set [record_movement]. well_formed jo"
    by (simp add: demo_records)
  show ?thesis
    by (intro exI [of _ demo_externals] exI [of _ stale_object] exI [of _ "[record_movement]"])
      (simp add: deserialize_well_formed [OF wf] demo_records store_def map_size_def
        stale_object_def)
qed

lemma hotkeys_of_other_topic_on_reordered_load:
  "\<exists>E' recs. (\<forall>jo \<in> set recs. well_formed jo) \<and> distinct (map order_of recs) \<and>
     snd (deserialize E' new_help recs) = None \<and>
     (\<exists>t. fmlookup (help_texts (fst (deserialize E' new_help recs))) 0 = Some t \<and>
        hotkeys (fst (deserialize E' new_help recs)) ! 0 \<noteq> get_hotkeys E' (fst t))"
proof -
  have wf: "\<forall>jo \<in> set [record_first, record_second]. well_formed jo"
    by (simp add: demo_records)
  have hk: "get_hotkeys demo_externals ''Bravo'' \<noteq> get_hotkeys demo_externals ''Alpha''"
    by (simp add: demo_externals_def)
  show ?thesis
    using hk
    by (intro exI [of _ demo_externals] exI [of _ "[record_first, record_second]"])
      (simp add: deserialize_well_formed [OF wf] demo_records store_def stored_topic_def)
qed

text \<open>
  C10. \<^verbatim>\<open>deserialize\<close> empties \<^verbatim>\<open>hotkeys\<close> and never empties \<^verbatim>\<open>help_texts\<close>. Whatever the object
  held and whatever the records are, after the call every key that is the order of no
  record holds what it held before, and \<^verbatim>\<open>hotkeys\<close> holds the entries of the records
  stored by this call and nothing else. After a successful first load of records whose
  distinct orders are their positions, the two containers have the same size and the
  hotkeys at an index are those of the topic at that index. Neither condition can be
  dropped: there is a reload (orders equal to positions) after which the sizes differ,
  and a first load (distinct orders) after which the hotkeys at index 0 are not those of
  the topic at 0.
\<close>

theorem reload_keeps_stale_topics:
  "\<exists>st' err. deserialize E st jos = (st', err) \<and>
     (\<forall>k. k \<notin> order_of ` set jos \<longrightarrow> fmlookup (help_texts st') k = fmlookup (help_texts st) k) \<and>
     (\<exists>n \<le> length jos. hotkeys st' = map (\<lambda>jo. get_hotkeys E (name_of jo)) (take n jos)) \<and>
     (err = None \<and> help_texts st = fmempty \<and> distinct (map order_of jos) \<and>
        (\<forall>i < length jos. order_of (jos ! i) = of_nat i) \<longrightarrow>
          length (hotkeys st') = map_size (help_texts st') \<and>
          (\<forall>i < length (hotkeys st').
             \<exists>t. fmlookup (help_texts st') (of_nat i) = Some t \<and>
                 hotkeys st' ! i = get_hotkeys E (fst t))) \<and>
     (\<exists>E' st0 recs. (\<forall>jo \<in> set recs. well_formed jo) \<and> distinct (map order_of recs) \<and>
        (\<forall>i < length recs. order_of (recs ! i) = of_nat i) \<and>
        snd (deserialize E' st0 recs) = None \<and>
        length (hotkeys (fst (deserialize E' st0 recs))) \<noteq>
          map_size (help_texts (fst (deserialize E' st0 recs)))) \<and>
     (\<exists>E' recs. (\<forall>jo \<in> set recs. well_formed jo) \<and> distinct (map order_of recs) \<and>
        snd (deserialize E' new_help recs) = None \<and>
        (\<exists>t. fmlookup (help_texts (fst (deserialize E' new_help recs))) 0 = Some t \<and>
           hotkeys (fst (deserialize E' new_help recs)) ! 0 \<noteq> get_hotkeys E' (fst t)))"
proof -
  let ?nc = "get_note_colors E" and ?dg = "get_dir_grid E"
  let ?hk = "\<lambda>jo. get_hotkeys E (name_of jo)"
  from deserialize_loop_prefix [of jos E ?nc ?dg "st\<lparr>hotkeys := []\<rparr>"]
  obtain n where n: "n \<le> length jos"
    and run: "deserialize E st jos =
      (\<lparr>help_texts = fold (store E ?nc ?dg) (take n jos) (help_texts st),
        hotkeys = map ?hk (take n jos)\<rparr>,
       if n = length jos then None else Some DataError)"
    by (auto simp: deserialize_def)
  let ?st' = "\<lparr>help_texts = fold (store E ?nc ?dg) (take n jos) (help_texts st),
               hotkeys = map ?hk (take n jos)\<rparr>"
  have stale: "fmlookup (help_texts ?st') k = fmlookup (help_texts st) k"
    if "k \<notin> order_of ` set jos" for k
  proof -
    have "k \<notin> order_of ` set (take n jos)"
      using that set_take_subset [of n jos] by blast
    then show ?thesis by (simp add: lookup_fold_store_other)
  qed
  have first: "length (hotkeys ?st') = map_size (help_texts ?st') \<and>
      (\<forall>i < length (hotkeys ?st').
         \<exists>t. fmlookup (help_texts ?st') (of_nat i) = Some t \<and> hotkeys ?st' ! i = get_hotkeys E (fst t))"
    if all: "n = length jos" and empty: "help_texts st = fmempty"
      and dist: "distinct (map order_of jos)"
      and pos: "\<forall>i < length jos. order_of (jos ! i) = of_nat i"
  proof -
    have size: "map_size (fold (store E ?nc ?dg) jos fmempty) = length jos"
      using card_dom_fold_store [OF dist] by (simp add: map_size_def)
    have at: "fmlookup (fold (store E ?nc ?dg) jos fmempty) (of_nat i) =
        Some (stored_topic E ?nc ?dg (jos ! i))" if "i < length jos" for i
    proof -
      have "jos ! i \<in> set jos" using that by simp
      from find_last_distinct [OF dist this] pos that show ?thesis
        by (simp add: lookup_fold_store)
    qed
    show ?thesis
      using size at by (simp add: all empty stored_topic_def)
  qed
  have "\<exists>st' err. deserialize E st jos = (st', err) \<and>
     (\<forall>k. k \<notin> order_of ` set jos \<longrightarrow> fmlookup (help_texts st') k = fmlookup (help_texts st) k) \<and>
     (\<exists>n \<le> length jos. hotkeys st' = map ?hk (take n jos)) \<and>
     (err = None \<and> help_texts st = fmempty \<and> distinct (map order_of jos) \<and>
        (\<forall>i < length jos. order_of (jos ! i) = of_nat i) \<longrightarrow>
          length (hotkeys st') = map_size (help_texts st') \<and>
          (\<forall>i < length (hotkeys st').
             \<exists>t. fmlookup (help_texts st') (of_nat i) = Some t \<and>
                 hotkeys st' ! i = get_hotkeys E (fst t)))"
    using n run stale first
    by (intro exI [of _ ?st'] exI [of _ "if n = length jos then None else Some DataError"])
      (auto split: if_splits)
  with hotkeys_without_topic_on_reload hotkeys_of_other_topic_on_reordered_load
  show ?thesis by blast
qed

theorem reload_keeps_stale_topics_witness:
  "(\<exists>st' err. deserialize demo_externals stale_object [record_movement] = (st', err) \<and>
      fmlookup (help_texts st') 5 = Some (''Old'', [''Gone.''])) \<and>
   (\<exists>st'. deserialize demo_externals new_help [record_movement, record_colors] = (st', None) \<and>
      length (hotkeys st') = map_size (help_texts st') \<and>
      map_option fst (fmlookup (help_texts st') 1) = Some ''Colors'' \<and>
      hotkeys st' ! 1 = [''C''])"
proof -
  have fresh: "(5 :: int32) \<notin> order_of ` set [record_movement]"
    by (simp add: demo_records)
  have old: "fmlookup (help_texts stale_object) 5 = Some (''Old'', [''Gone.''])"
    by (simp add: stale_object_def)
  from reload_keeps_stale_topics [of demo_externals stale_object "[record_movement]"] fresh old
  have one: "\<exists>st' err. deserialize demo_externals stale_object [record_movement] = (st', err) \<and>
      fmlookup (help_texts st') 5 = Some (''Old'', [''Gone.''])"
    by metis
  let ?recs = "[record_movement, record_colors]"
  have wf: "\<forall>jo \<in> set ?recs. well_formed jo"
    by (simp add: demo_records)
  obtain st' where st': "deserialize demo_externals new_help ?recs = (st', None)"
    using deserialize_well_formed [OF wf] by simp
  have at1: "map_option fst (fmlookup (help_texts st') 1) = Some ''Colors''"
    using st' by (auto simp: deserialize_well_formed [OF wf] demo_records store_def stored_topic_def)
  have len: "length (hotkeys st') = 2"
    using st' by (auto simp: deserialize_well_formed [OF wf])
  have pre: "help_texts new_help = fmempty" "distinct (map order_of ?recs)"
    "\<forall>i < length ?recs. order_of (?recs ! i) = of_nat i"
    by (simp_all add: new_help_def demo_records less_Suc_eq)
  from reload_keeps_stale_topics [of demo_externals new_help ?recs] st' pre
  have corr: "length (hotkeys st') = map_size (help_texts st')"
    "\<forall>i < length (hotkeys st').
       \<exists>t. fmlookup (help_texts st') (of_nat i) = Some t \<and>
           hotkeys st' ! i = get_hotkeys demo_externals (fst t)"
    by auto
  from corr(2) len have "\<exists>t. fmlookup (help_texts st') 1 = Some t \<and>
      hotkeys st' ! 1 = get_hotkeys demo_externals (fst t)"
    by (metis of_nat_1 one_less_numeral_iff semiring_norm(76))
  with at1 have "hotkeys st' ! 1 = [''C'']"
    by (auto simp: demo_externals_def)
  with one st' corr(1) at1 show ?thesis by blast
qed

subsection \<open>The direction diagram\<close>

text \<open>A step of \<open>replace_all\<close> over a slot that is already filled, which no slot token can
  match.\<close>

lemma replace_all_skip_slot:
  assumes "c \<noteq> CHR ''c''" "c \<noteq> CHR ''/''" "c \<noteq> CHR ''<''"
  shows "replace_all (slot_with keys i @ rest) (CHR ''<'' # c # cs) subst =
           slot_with keys i @ replace_all rest (CHR ''<'' # c # cs) subst"
  using assms by (cases "i < length keys") (simp_all add: slot_with_def replace_all_Cons)


lemma get_dir_grid_filled:
  "get_dir_grid E = filled_diagram (\<lambda>dir i. slot_with (keys_bound_to E dir) i)"
  by (simp add: get_dir_grid_def movearray_def filled_diagram_def movement_template_def
        slot_what_def replace_all_Cons replace_all_Nil replace_all_skip_slot bs_def nl_def)

text \<open>
  C6. The diagram \<^verbatim>\<open>get_dir_grid\<close> returns is the template with every slot filled: the slot
  \<open>i\<close> of a direction holds the \<open>i\<close>-th key bound to the direction, in light blue, when
  the direction has more than \<open>i\<close> keys, and the red question mark otherwise. This holds
  for the nine directions and both slots, whatever keys are bound.
\<close>

theorem dir_grid_slots:
  "get_dir_grid E =
     filled_diagram (\<lambda>dir i.
       if i < length (keys_bound_to E dir) then blue_key (keys_bound_to E dir ! i)
       else red_mark)"
  unfolding get_dir_grid_filled slot_with_def blue_key_def red_mark_def ..

text \<open>With \<^verbatim>\<open>h\<close> and \<^verbatim>\<open>H\<close> bound to the move to the left, \<^verbatim>\<open>k\<close> alone to the move forth,
  and no key to the other seven:\<close>

theorem dir_grid_slots_witness:
  "get_dir_grid demo_externals =
     red_mark @ ''  '' @ blue_key CHR ''k'' @ ''  '' @ red_mark @ ''   '' @
       red_mark @ ''  '' @ red_mark @ ''  '' @ red_mark @ [nl] @
     '' '' @ [bs] @ '' | /     '' @ [bs] @ '' | /'' @ [nl] @
     ''  '' @ [bs] @ ''|/       '' @ [bs] @ ''|/'' @ [nl] @
     blue_key CHR ''h'' @ ''--'' @ red_mark @ ''--'' @ red_mark @ ''   '' @
       blue_key CHR ''H'' @ ''--'' @ red_mark @ ''--'' @ red_mark @ [nl] @
     ''  /|'' @ [bs] @ ''       /|'' @ [bs] @ [nl] @
     '' / | '' @ [bs] @ ''     / | '' @ [bs] @ [nl] @
     red_mark @ ''  '' @ red_mark @ ''  '' @ red_mark @ ''   '' @
       red_mark @ ''  '' @ red_mark @ ''  '' @ red_mark"
  using dir_grid_slots [of demo_externals]
  by (simp add: filled_diagram_def demo_externals_def)

subsection \<open>Dynamic tokens\<close>

lemmas press_eval =
  expand_press_def str_find_def press_loop.simps action_name_def replace_all.simps

lemma press_loop_diagnostics:
  assumes "press_loop E line_proc pos dbg = Some r"
  shows "snd r = dbg"
  using assms
proof (induction E line_proc pos dbg r rule: press_loop.raw_induct [rotated 1, consumes 1])
  case (1 loop E line_proc pos dbg r)
  show ?case
  proof (cases pos)
    case None
    with 1(2) show ?thesis by auto
  next
    case (Some p)
    with 1(2) obtain line_proc' pos' where "loop E line_proc' pos' dbg = Some r"
      by (simp add: Let_def)
    then show ?thesis by (rule 1(1))
  qed
qed

text \<open>A replacement by a colour-tagged description in which \<^verbatim>\<open><press_\<close> does not occur
  removes at least one \<^verbatim>\<open><press_\<close> from the line and adds none. So the loop returns
  whenever no description of a key contains \<^verbatim>\<open><press_\<close>; a description may hold a
  \<^verbatim>\<open><\<close>, as the one of an action bound to that key does.\<close>

lemma occurrences_drop: "occurrences needle (drop n s) \<le> occurrences needle s"
proof (induction s arbitrary: n)
  case Nil
  then show ?case by simp
next
  case (Cons c cs)
  then show ?case
    by (cases n) (auto intro: le_trans [OF Cons.IH] trans_le_add2)
qed

lemma first_occurrence_Some:
  assumes "first_occurrence needle s = Some k"
  shows "prefix needle (drop k s) \<and> k < length s"
  using assms
proof (induction s arbitrary: k)
  case Nil
  then show ?case by simp
next
  case (Cons c cs)
  then show ?case
    by (cases "prefix needle (c # cs)") auto
qed

lemma str_find_Some:
  assumes "str_find s needle pos = Some q"
  shows "pos \<le> q \<and> prefix needle (drop q s)"
  using assms first_occurrence_Some [of needle "drop pos s"]
  by (auto simp: str_find_def add.commute split: if_splits)

lemma first_occurrence_char:
  assumes "first_occurrence [c] s = Some k"
  shows "c \<notin> set (take k s) \<and> drop k s = c # drop (Suc k) s"
  using assms
proof (induction s arbitrary: k)
  case Nil
  then show ?case by simp
next
  case (Cons x xs)
  show ?case
  proof (cases "x = c")
    case True
    with Cons.prems show ?thesis by simp
  next
    case False
    with Cons.prems obtain k' where k': "first_occurrence [c] xs = Some k'" "k = Suc k'"
      by auto
    from Cons.IH [OF k'(1)] False k'(2) show ?thesis by simp
  qed
qed

text \<open>Where the line has \<^verbatim>\<open><press_\<close> at \<^verbatim>\<open>pos\<close> and a \<^verbatim>\<open>>\<close> after it, the token the loop
  builds is the text of the line from \<^verbatim>\<open>pos\<close> to that \<^verbatim>\<open>>\<close>.\<close>

lemma token_at_position:
  assumes P: "prefix ''<press_'' (drop p line)"
    and pos2: "str_find line ''>'' p = Some p2"
  shows "p + 7 \<le> p2"
    and "prefix (''<press_'' @ action_name line p (Some p2) @ ''>'') (drop p line)"
proof -
  define s where "s = drop p line"
  from pos2 obtain k where k: "first_occurrence ''>'' s = Some k" "p2 = p + k"
    by (auto simp: str_find_def s_def split: if_splits)
  from first_occurrence_char [OF k(1)]
  have at: "drop k s = CHR ''>'' # drop (Suc k) s"
    by simp
  from P obtain rest where rest: "s = ''<press_'' @ rest"
    by (auto simp: prefix_def s_def)
  have "7 \<le> k"
  proof (rule ccontr)
    assume "\<not> 7 \<le> k"
    then have "k < 7" by simp
    then have "k \<in> {0, 1, 2, 3, 4, 5, 6}" by auto
    with at show False unfolding rest by auto
  qed
  then show "p + 7 \<le> p2" by (simp add: k(2))
  have "s = take k s @ drop k s"
    by simp
  also have "take k s = ''<press_'' @ take (k - 7) rest"
  proof -
    from \<open>7 \<le> k\<close> obtain k' where "k = 7 + k'"
      using le_Suc_ex by blast
    then show ?thesis
      by (simp add: rest numeral_eq_Suc)
  qed
  finally have "s = (''<press_'' @ take (k - 7) rest @ ''>'') @ drop (Suc k) s"
    using at by simp
  then have "prefix (''<press_'' @ take (k - 7) rest @ ''>'') s"
    by (rule prefixI)
  moreover have "action_name line p (Some p2) = take (k - 7) rest"
  proof -
    have "drop (p + 7) line = drop 7 s"
      by (simp add: s_def add.commute)
    then show ?thesis
      using \<open>7 \<le> k\<close> by (simp add: action_name_def k(2) rest numeral_eq_Suc)
  qed
  ultimately show "prefix (''<press_'' @ action_name line p (Some p2) @ ''>'') (drop p line)"
    by (simp add: s_def)
qed


lemma replace_all_keeps_start:
  assumes "CHR ''<'' \<notin> set w" and "rep \<noteq> []" and "hd rep = CHR ''<''"
    and "prefix w (replace_all str tok rep)"
  shows "prefix w str"
  using assms
proof (induction str tok rep arbitrary: w rule: replace_all.induct)
  case (1 str tok rep)
  show ?case
  proof (cases "tok = [] \<or> str = []")
    case True
    with "1.prems"(4) show ?thesis
      by (simp add: replace_all.simps [of str])
  next
    case False
    show ?thesis
    proof (cases "prefix tok str")
      case True
      with False "1.prems"(4)
      have "prefix w (rep @ replace_all (drop (length tok) str) tok rep)"
        by (simp add: replace_all.simps [of str])
      with "1.prems"(1-3) have "w = []"
        by (cases w; cases rep) auto
      then show ?thesis by simp
    next
      case no: False
      from False obtain c cs where str: "str = c # cs"
        by (cases str) auto
      with False no "1.prems"(4) have start: "prefix w (c # replace_all cs tok rep)"
        by (simp add: replace_all_Cons)
      show ?thesis
      proof (cases w)
        case Nil
        then show ?thesis by simp
      next
        case (Cons a w')
        with start have "a = c" "prefix w' (replace_all cs tok rep)"
          by simp_all
        moreover from Cons "1.prems"(1) have "CHR ''<'' \<notin> set w'"
          by simp
        ultimately have "prefix w' cs"
          using "1.IH"(2) [OF False no, of w'] "1.prems"(2,3) by (simp add: str)
        with \<open>a = c\<close> show ?thesis by (simp add: Cons str)
      qed
    qed
  qed
qed

lemma occurrences_plain:
  assumes "CHR ''<'' \<notin> set d"
  shows "occurrences ''<press_'' d = 0"
  using assms by (induction d) auto

lemma prefix_press_append:
  "prefix ''<press_'' ((c # d) @ CHR ''<'' # xs) \<longleftrightarrow> prefix ''<press_'' (c # d)"
proof
  assume "prefix ''<press_'' (c # d)"
  then show "prefix ''<press_'' ((c # d) @ CHR ''<'' # xs)"
    by (rule prefix_prefix)
next
  assume "prefix ''<press_'' ((c # d) @ CHR ''<'' # xs)"
  then have "prefix ''<press_'' (c # d) \<or>
      (\<exists>us. ''<press_'' = (c # d) @ us \<and> prefix us (CHR ''<'' # xs))"
    by (simp only: prefix_append)
  then show "prefix ''<press_'' (c # d)"
  proof
    assume "\<exists>us. ''<press_'' = (c # d) @ us \<and> prefix us (CHR ''<'' # xs)"
    then obtain us where us: "''<press_'' = (c # d) @ us" "prefix us (CHR ''<'' # xs)"
      by blast
    from us(1) have "''press_'' = d @ us"
      by simp
    then have "set us \<subseteq> set ''press_''"
      by (metis set_append Un_upper2)
    then have "CHR ''<'' \<notin> set us"
      by auto
    with us(2) have "us = []"
      by (cases us) auto
    with us(1) show ?thesis
      by simp
  qed
qed

lemma occurrences_append_tag:
  "occurrences ''<press_'' (d @ CHR ''<'' # xs) =
     occurrences ''<press_'' d + occurrences ''<press_'' (CHR ''<'' # xs)"
proof (induction d)
  case Nil
  show ?case by simp
next
  case (Cons c d)
  have "occurrences ''<press_'' ((c # d) @ CHR ''<'' # xs) =
      (if prefix ''<press_'' ((c # d) @ CHR ''<'' # xs) then 1 else 0) +
        occurrences ''<press_'' (d @ CHR ''<'' # xs)"
    by simp
  also have "\<dots> = (if prefix ''<press_'' (c # d) then 1 else 0) + 
       (occurrences ''<press_'' d + occurrences ''<press_'' (CHR ''<'' # xs))"
    unfolding prefix_press_append Cons.IH ..
  finally show ?case by simp
qed

lemma occurrences_colour_tags:
  assumes "occurrences ''<press_'' d = 0"
  shows "occurrences ''<press_'' ((''<color_light_blue>'' @ d @ ''</color>'') @ rest) =
           occurrences ''<press_'' rest"
proof -
  have "occurrences ''<press_'' (d @ ''</color>'' @ rest) = occurrences ''<press_'' rest"
    using assms occurrences_append_tag [of d "''/color>'' @ rest"] by simp
  then show ?thesis by simp
qed

lemma occurrences_Cons_mono:
  assumes "prefix needle (c # xs) \<Longrightarrow> prefix needle (c # ys)"
  shows "occurrences needle xs \<le> occurrences needle ys \<Longrightarrow>
           occurrences needle (c # xs) \<le> occurrences needle (c # ys)"
    and "occurrences needle xs < occurrences needle ys \<Longrightarrow>
           occurrences needle (c # xs) < occurrences needle (c # ys)"
  using assms by auto

lemma occurrences_replace_all_le:
  assumes "rep \<noteq> []" and "hd rep = CHR ''<''"
    and "\<And>rest. occurrences ''<press_'' (rep @ rest) = occurrences ''<press_'' rest"
  shows "occurrences ''<press_'' (replace_all str tok rep) \<le> occurrences ''<press_'' str"
  using assms
proof (induction str tok rep rule: replace_all.induct)
  case (1 str tok rep)
  show ?case
  proof (cases "tok = [] \<or> str = []")
    case True
    then show ?thesis
      by (simp add: replace_all.simps [of str])
  next
    case False
    show ?thesis
    proof (cases "prefix tok str")
      case True
      with False have "replace_all str tok rep = rep @ replace_all (drop (length tok) str) tok rep"
        by (simp add: replace_all.simps [of str])
      then have "occurrences ''<press_'' (replace_all str tok rep) =
          occurrences ''<press_'' (replace_all (drop (length tok) str) tok rep)"
        using "1.prems"(3) by simp
      also have "\<dots> \<le> occurrences ''<press_'' (drop (length tok) str)"
        using "1.IH"(1) [OF False True] "1.prems" by simp
      also have "\<dots> \<le> occurrences ''<press_'' str"
        by (rule occurrences_drop)
      finally show ?thesis .
    next
      case no: False
      from False obtain c cs where str: "str = c # cs"
        by (cases str) auto
      with False no have eq: "replace_all str tok rep = c # replace_all cs tok rep"
        by (simp add: replace_all_Cons)
      have tail: "occurrences ''<press_'' (replace_all cs tok rep) \<le> occurrences ''<press_'' cs"
        using "1.IH"(2) [OF False no] "1.prems" by (simp add: str)
      have head: "prefix ''<press_'' (c # cs)" if "prefix ''<press_'' (c # replace_all cs tok rep)"
      proof -
        from that have c: "CHR ''<'' = c" and "prefix ''press_'' (replace_all cs tok rep)"
          by (simp_all only: Cons_prefix_Cons)
        from this(2) have "prefix ''press_'' cs"
          by (rule replace_all_keeps_start [rotated 3]) (simp_all add: "1.prems")
        with c show ?thesis by (simp only: Cons_prefix_Cons simp_thms)
      qed
      show ?thesis
        unfolding eq unfolding str using head tail by (rule occurrences_Cons_mono(1))
    qed
  qed
qed

lemma occurrences_replace_all_less:
  assumes "rep \<noteq> []" and "hd rep = CHR ''<''"
    and "\<And>rest. occurrences ''<press_'' (rep @ rest) = occurrences ''<press_'' rest"
    and "prefix ''<press_'' tok" and "prefix tok (drop k str)"
  shows "occurrences ''<press_'' (replace_all str tok rep) < occurrences ''<press_'' str"
  using assms(5)
proof (induction str arbitrary: k)
  case Nil
  with assms(4) show ?case by auto
next
  case (Cons c cs)
  from assms(4) have tok: "tok \<noteq> []" by auto
  show ?case
  proof (cases "prefix tok (c # cs)")
    case True
    with tok have "replace_all (c # cs) tok rep = rep @ replace_all (drop (length tok) (c # cs)) tok rep"
      by (simp add: replace_all_Cons)
    then have "occurrences ''<press_'' (replace_all (c # cs) tok rep) =
        occurrences ''<press_'' (replace_all (drop (length tok) (c # cs)) tok rep)"
      using assms(3) by simp
    also have "\<dots> \<le> occurrences ''<press_'' (drop (length tok) (c # cs))"
      by (rule occurrences_replace_all_le [OF assms(1-3)])
    also have "\<dots> = occurrences ''<press_'' (drop (length tok - 1) cs)"
      using tok by (cases tok) simp_all
    also have "\<dots> \<le> occurrences ''<press_'' cs"
      by (rule occurrences_drop)
    also have "\<dots> < occurrences ''<press_'' (c # cs)"
    proof -
      from assms(4) True have "prefix ''<press_'' (c # cs)"
        by (rule prefix_order.trans)
      then show ?thesis by simp
    qed
    finally show ?thesis .
  next
    case False
    with Cons.prems obtain k' where k': "k = Suc k'"
      by (cases k) auto
    with Cons.prems have "prefix tok (drop k' cs)" by simp
    from Cons.IH [OF this]
    have tail: "occurrences ''<press_'' (replace_all cs tok rep) < occurrences ''<press_'' cs" .
    from False tok have eq: "replace_all (c # cs) tok rep = c # replace_all cs tok rep"
      by (simp add: replace_all_Cons)
    have head: "prefix ''<press_'' (c # cs)" if "prefix ''<press_'' (c # replace_all cs tok rep)"
    proof -
      from that have c: "CHR ''<'' = c" and "prefix ''press_'' (replace_all cs tok rep)"
        by (simp_all only: Cons_prefix_Cons)
      from this(2) have "prefix ''press_'' cs"
        by (rule replace_all_keeps_start [rotated 3]) (simp_all add: assms)
      with c show ?thesis by (simp only: Cons_prefix_Cons simp_thms)
    qed
    show ?thesis
      unfolding eq using head tail by (rule occurrences_Cons_mono(2))
  qed
qed


lemma press_loop_returns:
  assumes plain: "\<And>a. occurrences ''<press_'' (press_x E a) = 0"
    and "\<And>p. pos = Some p \<Longrightarrow> prefix ''<press_'' (drop p line_proc)"
  shows "\<exists>r. press_loop E line_proc pos dbg = Some r"
  using assms(2)
proof (induction "occurrences ''<press_'' line_proc" arbitrary: line_proc pos rule: less_induct)
  case less
  show ?case
  proof (cases pos)
    case None
    then show ?thesis
      by (subst press_loop.simps) simp
  next
    case (Some p)
    define pos2 where "pos2 = str_find line_proc ''>'' p"
    define action where "action = action_name line_proc p pos2"
    define replace where "replace = ''<color_light_blue>'' @ press_x E action @ ''</color>''"
    define line_proc' where "line_proc' = replace_all line_proc (''<press_'' @ action @ ''>'') replace"
    define pos' where
      "pos' = (case pos2 of None \<Rightarrow> None | Some p2 \<Rightarrow> str_find line_proc' ''<press_'' p2)"
    have filled: "''<color_light_blue>'' @ d @ ''</color>'' \<noteq> []" for d :: string
      by simp
    have step: "press_loop E line_proc pos dbg = press_loop E line_proc' pos' dbg"
      unfolding Some pos'_def line_proc'_def replace_def action_def pos2_def
      by (subst press_loop.simps) (simp only: Let_def option.case filled if_False)
    show ?thesis
    proof (cases pos2)
      case None
      then have "pos' = None" by (simp add: pos'_def)
      then show ?thesis
        unfolding step by (subst press_loop.simps) simp
    next
      case p2: (Some p2)
      from less.prems [OF Some] have at: "prefix ''<press_'' (drop p line_proc)" .
      from token_at_position(2) [OF at p2 [unfolded pos2_def]]
      have tok: "prefix (''<press_'' @ action @ ''>'') (drop p line_proc)"
        by (simp add: action_def p2)
      have "occurrences ''<press_'' line_proc' < occurrences ''<press_'' line_proc"
        unfolding line_proc'_def
      proof (rule occurrences_replace_all_less [OF _ _ _ _ tok])
        show "replace \<noteq> []" "hd replace = CHR ''<''"
          by (simp_all add: replace_def)
        show "occurrences ''<press_'' (replace @ rest) = occurrences ''<press_'' rest" for rest
          unfolding replace_def by (rule occurrences_colour_tags [OF plain])
        show "prefix ''<press_'' (''<press_'' @ action @ ''>'')"
          by (rule prefixI) simp
      qed
      moreover have "prefix ''<press_'' (drop q line_proc')" if "pos' = Some q" for q
        using that str_find_Some [of line_proc' "''<press_''" p2 q] by (simp add: pos'_def p2)
      ultimately have "\<exists>r. press_loop E line_proc' pos' dbg = Some r"
        by (rule less.hyps)
      then show ?thesis by (simp add: step)
    qed
  qed
qed

lemma expand_press_returns:
  assumes "\<And>a. occurrences ''<press_'' (press_x E a) = 0"
  shows "\<exists>r. expand_press E line = Some r"
  unfolding expand_press_def Let_def
  using str_find_Some [of "translate E line" "''<press_''" 0]
  by (intro press_loop_returns assms) simp

lemma transform_lines_returns:
  assumes "\<And>a. occurrences ''<press_'' (press_x E a) = 0"
  shows "\<exists>r. transform_lines E lines = Some r"
proof (induction lines)
  case Nil
  then show ?case by simp
next
  case (Cons line lines)
  from expand_press_returns [OF assms, of line] obtain t d where "expand_press E line = Some (t, d)"
    by auto
  with Cons show ?case by auto
qed

text \<open>
  C3. The test \<^verbatim>\<open>replace.empty()\<close> that guards \<^verbatim>\<open>debugmsg\<close> is made on the
  description wrapped in its colour tags, which is never empty: whatever the line and
  whatever the key bindings, an expansion that returns has given no diagnostic, and the
  expansion does return when no description of a key holds a \<^verbatim>\<open><\<close>. For an action
  without description the token is replaced by the empty colour tag pair.
\<close>

theorem no_diagnostic_for_unknown_action:
  "(\<forall>line_proc dbg. expand_press E line = Some (line_proc, dbg) \<longrightarrow> dbg = []) \<and>
   ((\<forall>a. CHR ''<'' \<notin> set (press_x E a)) \<longrightarrow>
      (\<exists>line_proc. expand_press E line = Some (line_proc, [])))"
proof -
  have none: "dbg = []" if "expand_press E line = Some (line_proc, dbg)" for line_proc dbg
    using press_loop_diagnostics [of E "translate E line" _ "[]" "(line_proc, dbg)"] that
    by (simp add: expand_press_def Let_def)
  have "\<exists>line_proc. expand_press E line = Some (line_proc, [])"
    if "\<forall>a. CHR ''<'' \<notin> set (press_x E a)"
  proof -
    from that have "occurrences ''<press_'' (press_x E a) = 0" for a
      by (simp add: occurrences_plain)
    from expand_press_returns [OF this, of line] obtain line_proc dbg
      where "expand_press E line = Some (line_proc, dbg)"
      by auto
    with none [OF this] show ?thesis by auto
  qed
  with none show ?thesis by blast
qed

theorem no_diagnostic_for_unknown_action_witness:
  "press_x demo_externals ''UNKNOWN_ACTION'' = [] \<and>
   expand_press demo_externals ''<press_UNKNOWN_ACTION>'' = Some (''<color_light_blue></color>'', [])"
proof -
  have "expand_press demo_externals ''<press_UNKNOWN_ACTION>'' =
      Some (''<color_light_blue></color>'',
            snd (the (expand_press demo_externals ''<press_UNKNOWN_ACTION>'')))"
    by (simp add: demo_externals_def press_eval)
  moreover from this no_diagnostic_for_unknown_action [of demo_externals "''<press_UNKNOWN_ACTION>''"]
  have "snd (the (expand_press demo_externals ''<press_UNKNOWN_ACTION>'')) = []"
    by blast
  ultimately show ?thesis
    by (simp add: demo_externals_def)
qed

text \<open>
  C7. After a replacement the search for the next token resumes at
  \<^verbatim>\<open>pos2\<close>, the index of \<^verbatim>\<open>>\<close> in the line before the replacement. When the token is
  longer than its replacement the line has shrunk, and a token that now starts before
  \<^verbatim>\<open>pos2\<close> is never looked at: with no key bound to \<^verbatim>\<open>toggle_auto_pulp_butcher\<close> and
  \<^verbatim>\<open>.\<close> bound to \<^verbatim>\<open>pause\<close>, the second token of the line stays as it is.
\<close>

theorem stale_position_skips_token:
  "expand_press demo_externals ''<press_toggle_auto_pulp_butcher> or <press_pause>'' =
     Some (''<color_light_blue></color> or <press_pause>'', [])"
  by (simp add: demo_externals_def press_eval)

text \<open>The same tokens in an order where the line grows are all expanded, the repeated
  one at both places.\<close>

lemma tokens_expanded_when_text_grows:
  "expand_press demo_externals ''<press_pause> or <press_toggle_auto_pulp_butcher>, <press_pause>'' =
     Some (''<color_light_blue>.</color> or <color_light_blue></color>, <color_light_blue>.</color>'', [])"
  by (simp add: demo_externals_def press_eval)

subsection \<open>Showing a topic\<close>

lemma foldl_paragraphs:
  "foldl (\<lambda>lhs rhs. lhs @ nl # nl # rhs) a xs = a @ concat (map (\<lambda>rhs. nl # nl # rhs) xs)"
  by (induction xs arbitrary: a) simp_all

lemma join_paragraphs_Cons:
  "join_paragraphs (a # xs) = a @ concat (map (\<lambda>rhs. nl # nl # rhs) xs)"
  by (induction xs arbitrary: a) simp_all

lemma accumulate_paragraphs_join:
  assumes "texts \<noteq> []"
  shows "accumulate_paragraphs texts = join_paragraphs texts"
  using assms
  by (cases texts) (simp_all add: accumulate_paragraphs_def foldl_paragraphs join_paragraphs_Cons)

lemma transform_lines_result:
  assumes "transform_lines E lines = Some (texts, dbgs)"
  shows "length texts = length lines \<and> dbgs = []"
  using assms
proof (induction lines arbitrary: texts dbgs)
  case Nil
  then show ?case by simp
next
  case (Cons line lines)
  from Cons.prems obtain t d ts ds where parts:
      "expand_press E line = Some (t, d)" "transform_lines E lines = Some (ts, ds)"
      "texts = t # ts" "dbgs = d @ ds"
    by (auto split: option.splits)
  have "d = []"
    using parts(1) press_loop_diagnostics [of E "translate E line" _ "[]" "(t, d)"]
    by (simp add: expand_press_def Let_def)
  with Cons.IH [OF parts(2)] parts show ?case by simp
qed

lemma show_topic_stored:
  assumes "fmlookup (catalog u) (of_nat i) = Some (name, ps)"
    and "transform_lines E ps = Some (texts, dbgs)"
  shows "show_topic E u i =
           Some (u\<lparr>popups := popups u @ (if ps = [] then [] else [join_paragraphs texts]),
                   ui_action := ''CONFIRM''\<rparr>)"
proof -
  from transform_lines_result [OF assms(2)] have len: "length texts = length ps" and "dbgs = []"
    by simp_all
  then show ?thesis
    using assms by (cases "texts = []") (auto simp: show_topic_def subscript_def accumulate_paragraphs_join)
qed

lemma hotkeys_loop_no_match:
  assumes "\<forall>hks \<in> set hk. sInput \<notin> set hks"
  shows "hotkeys_loop E sInput hk j u = Some u"
  using assms by (induction hk arbitrary: j) simp_all

lemma hotkeys_loop_append:
  "hotkeys_loop E sInput (xs @ ys) j u =
     (case hotkeys_loop E sInput xs j u of
        None \<Rightarrow> None
      | Some u' \<Rightarrow> hotkeys_loop E sInput ys (j + length xs) u')"
  by (induction xs arbitrary: j u) (simp_all split: option.splits)

lemma show_topic_diverges:
  assumes "fmlookup (catalog u) (of_nat i) = Some (name, ps)"
    and "transform_lines E ps = None"
  shows "show_topic E u i = None"
  using assms by (simp add: show_topic_def subscript_def)

lemma hotkeys_loop_single_match:
  assumes "i < length hk" and "sInput \<in> set (hk ! i)"
    and "\<forall>j < length hk. j \<noteq> i \<longrightarrow> sInput \<notin> set (hk ! j)"
  shows "hotkeys_loop E sInput hk 0 u = show_topic E u i"
proof -
  have hk: "hk = take i hk @ (hk ! i # drop (Suc i) hk)"
    using assms(1) by (simp add: id_take_nth_drop)
  have before: "\<forall>hks \<in> set (take i hk). sInput \<notin> set hks"
  proof
    fix hks
    assume "hks \<in> set (take i hk)"
    then obtain j where "j < i" "hk ! j = hks"
      using assms(1) by (auto simp: in_set_conv_nth)
    with assms(1,3) show "sInput \<notin> set hks" by auto
  qed
  have after: "\<forall>hks \<in> set (drop (Suc i) hk). sInput \<notin> set hks"
  proof
    fix hks
    assume "hks \<in> set (drop (Suc i) hk)"
    then obtain j where "j < length hk - Suc i" "hk ! (Suc i + j) = hks"
      using assms(1) by (auto simp: in_set_conv_nth)
    then have "Suc i + j < length hk" "Suc i + j \<noteq> i" "hk ! (Suc i + j) = hks"
      by simp_all
    with assms(3) show "sInput \<notin> set hks" by blast
  qed
  have "hotkeys_loop E sInput (take i hk @ (hk ! i # drop (Suc i) hk)) 0 u = show_topic E u i"
    using assms(1,2)
    by (simp add: hotkeys_loop_append hotkeys_loop_no_match [OF before]
          hotkeys_loop_no_match [OF after] split: option.splits)
  with hk show ?thesis by simp
qed

lemma display_help_single_match:
  assumes "i < length hk" and "sInput \<in> set (hk ! i)"
    and "\<forall>j < length hk. j \<noteq> i \<longrightarrow> sInput \<notin> set (hk ! j)"
    and "fmlookup (catalog u) (of_nat i) = Some (name, ps)"
  shows "display_help E hk ((act, sInput) # inputs) u =
           (case transform_lines E ps of
              None \<Rightarrow> None
            | Some (texts, dbgs) \<Rightarrow>
                display_help E hk inputs
                  (u\<lparr>popups := popups u @ (if ps = [] then [] else [join_paragraphs texts]),
                     ui_action := ''CONFIRM''\<rparr>))"
proof (cases "transform_lines E ps")
  case None
  with assms(4) have "show_topic E (u\<lparr>ui_action := act\<rparr>) i = None"
    by (intro show_topic_diverges [of _ _ name ps]) simp_all
  with None show ?thesis
    by (simp add: hotkeys_loop_single_match [OF assms(1-3)])
next
  case (Some r)
  obtain texts dbgs where r: "r = (texts, dbgs)"
    by (cases r)
  from assms(4) Some have "show_topic E (u\<lparr>ui_action := act\<rparr>) i =
      Some (u\<lparr>popups := popups u @ (if ps = [] then [] else [join_paragraphs texts]),
              ui_action := ''CONFIRM''\<rparr>)"
    using show_topic_stored [of "u\<lparr>ui_action := act\<rparr>" i name ps E texts dbgs] by (simp add: r)
  with Some show ?thesis
    by (simp add: hotkeys_loop_single_match [OF assms(1-3)] r)
qed

text \<open>
  C9. The key pressed is a hotkey of the topic at index \<open>i\<close> and of no other, and the map
  holds a topic at \<open>i\<close>. Then, once its paragraphs are expanded, this turn of the loop
  hands one document to \<^verbatim>\<open>scrollable_text\<close>, the expanded texts joined with two line feeds,
  or none at all when the topic has no paragraph; it leaves the map as it is, sets
  \<^verbatim>\<open>action\<close> to \<^verbatim>\<open>CONFIRM\<close>, and the loop goes on with the next input. The turn has no
  result only when the expansion of a paragraph never ends. The expansion of every
  paragraph does end, with one text for each paragraph and no diagnostic, when
  \<^verbatim>\<open><press_\<close> occurs in no description of a key: a description may hold a \<^verbatim>\<open><\<close>, as
  the one of an action bound to that key.
\<close>

theorem selected_topic_document:
  assumes "i < length hk" and "sInput \<in> set (hk ! i)"
    and "\<forall>j < length hk. j \<noteq> i \<longrightarrow> sInput \<notin> set (hk ! j)"
    and "fmlookup (catalog u) (of_nat i) = Some (name, ps)"
  shows "display_help E hk ((act, sInput) # inputs) u =
           (case transform_lines E ps of
              None \<Rightarrow> None
            | Some (texts, dbgs) \<Rightarrow>
                display_help E hk inputs
                  (u\<lparr>popups := popups u @ (if ps = [] then [] else [join_paragraphs texts]),
                     ui_action := ''CONFIRM''\<rparr>)) \<and>
         ((\<forall>a. occurrences ''<press_'' (press_x E a) = 0) \<longrightarrow>
            (\<exists>texts. transform_lines E ps = Some (texts, []) \<and> length texts = length ps))"
proof -
  have "\<exists>texts. transform_lines E ps = Some (texts, []) \<and> length texts = length ps"
    if "\<forall>a. occurrences ''<press_'' (press_x E a) = 0"
  proof -
    from that have "occurrences ''<press_'' (press_x E a) = 0" for a
      by simp
    from transform_lines_returns [OF this, of ps] obtain texts dbgs
      where "transform_lines E ps = Some (texts, dbgs)"
      by auto
    with transform_lines_result [OF this] show ?thesis
      by simp
  qed
  with display_help_single_match [OF assms] show ?thesis
    by blast
qed

theorem selected_topic_document_witness:
  "transform_lines demo_externals [''Walk.'', ''Wait: <press_pause>''] =
     Some ([''Walk.'', ''Wait: <color_light_blue>.</color>''], []) \<and>
   display_help demo_externals [[''M''], [''I'']] [(''ANY_INPUT'', ''M'')] demo_ui =
     Some (demo_ui\<lparr>popups := [''Walk.'' @ [nl, nl] @ ''Wait: <color_light_blue>.</color>''],
                   ui_action := ''CONFIRM''\<rparr>) \<and>
   display_help demo_externals [[''M''], [''I'']] [(''ANY_INPUT'', ''I'')] demo_ui =
     Some (demo_ui\<lparr>ui_action := ''CONFIRM''\<rparr>) \<and>
   press_x angle_externals ''pause'' = ''<'' \<and>
   (\<forall>a. occurrences ''<press_'' (press_x angle_externals a) = 0) \<and>
   display_help angle_externals [[''M''], [''I'']] [(''ANY_INPUT'', ''M'')] demo_ui =
     Some (demo_ui\<lparr>popups := [''Walk.'' @ [nl, nl] @ ''Wait: <color_light_blue><</color>''],
                   ui_action := ''CONFIRM''\<rparr>)"
proof -
  let ?hk = "[[''M''], [''I'']]"
  have lines: "transform_lines demo_externals [''Walk.'', ''Wait: <press_pause>''] =
      Some ([''Walk.'', ''Wait: <color_light_blue>.</color>''], [])"
    by (simp add: demo_externals_def press_eval)
  have none: "transform_lines demo_externals [] = Some ([], [])"
    by simp
  have only0: "\<forall>j < length ?hk. j \<noteq> 0 \<longrightarrow> ''M'' \<notin> set (?hk ! j)"
    by (simp add: less_Suc_eq)
  have only1: "\<forall>j < length ?hk. j \<noteq> 1 \<longrightarrow> ''I'' \<notin> set (?hk ! j)"
    by (simp add: less_Suc_eq)
  have at0: "fmlookup (catalog demo_ui) (of_nat 0) = Some (''Movement'', [''Walk.'', ''Wait: <press_pause>''])"
    by (simp add: demo_ui_def)
  have at1: "fmlookup (catalog demo_ui) (of_nat 1) = Some (''Items'', [])"
    by (simp add: demo_ui_def)
  have shown: "display_help demo_externals ?hk [(''ANY_INPUT'', ''M'')] demo_ui =
      Some (demo_ui\<lparr>popups := [''Walk.'' @ [nl, nl] @ ''Wait: <color_light_blue>.</color>''],
                    ui_action := ''CONFIRM''\<rparr>)"
    using selected_topic_document [OF _ _ only0 at0, of demo_externals "''ANY_INPUT''" "[]"] lines
    by (simp add: demo_ui_def)
  have skipped: "display_help demo_externals ?hk [(''ANY_INPUT'', ''I'')] demo_ui =
      Some (demo_ui\<lparr>ui_action := ''CONFIRM''\<rparr>)"
    using selected_topic_document [OF _ _ only1 at1, of demo_externals "''ANY_INPUT''" "[]"] none
    by (simp add: demo_ui_def)
  have angle: "occurrences ''<press_'' (press_x angle_externals a) = 0" for a
    by (simp add: angle_externals_def demo_externals_def)
  have angle_lines: "transform_lines angle_externals [''Walk.'', ''Wait: <press_pause>''] =
      Some ([''Walk.'', ''Wait: <color_light_blue><</color>''], [])"
    by (simp add: angle_externals_def demo_externals_def press_eval)
  have angle_shown: "display_help angle_externals ?hk [(''ANY_INPUT'', ''M'')] demo_ui =
      Some (demo_ui\<lparr>popups := [''Walk.'' @ [nl, nl] @ ''Wait: <color_light_blue><</color>''],
                    ui_action := ''CONFIRM''\<rparr>)"
    using selected_topic_document [OF _ _ only0 at0, of angle_externals "''ANY_INPUT''" "[]"]
      angle_lines
    by (simp add: demo_ui_def)
  show ?thesis
    using lines shown skipped angle angle_shown
    by (simp add: angle_externals_def)
qed
subsection \<open>Drawing the menu\<close>

lemma map_size_le: "map_size m \<le> 2 ^ 32"
proof -
  have "card (fmdom' m) \<le> card (UNIV :: int32 set)"
    by (rule card_mono) simp_all
  then show ?thesis by (simp add: map_size_def card_word)
qed

lemma subscript_lookup:
  "fmlookup (snd (subscript m k)) k = Some (fst (subscript m k))"
  "fst (subscript m k) = topic_at m k"
  "fmlookup m k' = Some t \<Longrightarrow> fmlookup (snd (subscript m k)) k' = Some t"
  "fmdom' (snd (subscript m k)) = insert k (fmdom' m)"
  "k' \<notin> fmdom' m \<Longrightarrow> k' \<in> fmdom' (snd (subscript m k)) \<Longrightarrow>
     fmlookup (snd (subscript m k)) k' = Some default_topic"
  by (auto simp: subscript_def topic_at_def fmlookup_dom'_iff split: option.splits if_splits)

lemma widen_Nil: "widen E sc [] = sc"
  by (simp add: widen_def)

lemma widen_Cons: "widen E sc (l # ls) = widen E (max sc (utf8_width E l + 4)) ls"
  by (simp add: widen_def)

lemma draw_menu_loop_trace:
  assumes "draw_menu_loop E y half i sc m out = (out', m')"
  shows "\<exists>n \<ge> i.
           out' = out @ map (menu_entry E y half (widen E sc (map (menu_label E m') [i..<half])) m') [i..<n] \<and>
           (\<forall>k t. fmlookup m k = Some t \<longrightarrow> fmlookup m' k = Some t) \<and>
           fmdom' m' = fmdom' m \<union> of_nat ` {i..<n} \<and>
           (\<forall>k. k \<notin> fmdom' m \<longrightarrow> k \<in> fmdom' m' \<longrightarrow> fmlookup m' k = Some default_topic) \<and>
           map_size m' \<le> n \<and> (i < n \<longrightarrow> n \<le> 2 ^ 32)"
  using assms
proof (induction E y half i sc m out arbitrary: out' m' rule: draw_menu_loop.induct)
  case (1 E y half i sc m out)
  show ?case
  proof (cases "i < map_size m")
    case False
    with "1.prems" have "out' = out" "m' = m"
      by (simp_all add: draw_menu_loop.simps [of E y half i])
    with False show ?thesis
      by (intro exI [of _ i]) simp
  next
    case True
    define cat_name where "cat_name = translate E (fst (fst (subscript m (of_nat i))))"
    define m1 where "m1 = snd (subscript m (of_nat i))"
    define sc' where "sc' = (if i < half then max sc (utf8_width E cat_name + 4) else sc)"
    define p :: print where "p = (if i < half then 1 else sc', y + i mod half, cat_name)"
    have "draw_menu_loop E y half i sc m out = draw_menu_loop E y half (Suc i) sc' m1 (out @ [p])"
      unfolding cat_name_def m1_def sc'_def p_def
      by (subst draw_menu_loop.simps) (simp only: True if_True Let_def)
    with "1.prems" have rec: "draw_menu_loop E y half (Suc i) sc' m1 (out @ [p]) = (out', m')"
      by simp
    from "1.IH" [OF True cat_name_def m1_def sc'_def rec [unfolded p_def]]
    obtain n where n: "Suc i \<le> n"
      and out': "out' = (out @ [p]) @
          map (menu_entry E y half (widen E sc' (map (menu_label E m') [Suc i..<half])) m') [Suc i..<n]"
      and mono: "\<And>k t. fmlookup m1 k = Some t \<Longrightarrow> fmlookup m' k = Some t"
      and dom: "fmdom' m' = fmdom' m1 \<union> of_nat ` {Suc i..<n}"
      and dflt: "\<And>k. k \<notin> fmdom' m1 \<Longrightarrow> k \<in> fmdom' m' \<Longrightarrow> fmlookup m' k = Some default_topic"
      and size: "map_size m' \<le> n" and bound: "Suc i < n \<longrightarrow> n \<le> 2 ^ 32"
      unfolding p_def by blast
    have at_i: "fmlookup m' (of_nat i) = Some (topic_at m (of_nat i))"
      using mono [of "of_nat i"] by (simp add: m1_def subscript_lookup)
    then have lab: "menu_label E m' i = cat_name"
      by (simp add: menu_label_def topic_at_def cat_name_def subscript_lookup)
    let ?X = "widen E sc (map (menu_label E m') [i..<half])"
    let ?X1 = "widen E sc' (map (menu_label E m') [Suc i..<half])"
    have X: "?X1 = ?X" and p: "p = menu_entry E y half ?X m' i"
    proof -
      show "?X1 = ?X"
      proof (cases "i < half")
        case True
        then show ?thesis
          by (simp add: upt_conv_Cons widen_Cons lab sc'_def)
      next
        case False
        then show ?thesis by (simp add: sc'_def)
      qed
      show "p = menu_entry E y half ?X m' i"
        by (cases "i < half") (simp_all add: p_def menu_entry_def lab sc'_def widen_Nil)
    qed
    have "i < n" using n by simp
    then have upt: "[i..<n] = i # [Suc i..<n]"
      by (simp add: upt_conv_Cons)
    have 1: "out' = out @ map (menu_entry E y half ?X m') [i..<n]"
      using out' by (simp add: X upt p)
    have 2: "fmlookup m' k = Some t" if "fmlookup m k = Some t" for k t
      using that by (intro mono) (simp add: m1_def subscript_lookup)
    have "{i..<n} = insert i {Suc i..<n}"
      using \<open>i < n\<close> by auto
    then have 3: "fmdom' m' = fmdom' m \<union> of_nat ` {i..<n}"
      using dom by (simp add: m1_def subscript_lookup)
    have 4: "fmlookup m' k = Some default_topic" if "k \<notin> fmdom' m" "k \<in> fmdom' m'" for k
    proof (cases "k \<in> fmdom' m1")
      case True
      with that(1) have "fmlookup m1 k = Some default_topic"
        unfolding m1_def by (intro subscript_lookup(5))
      then show ?thesis by (rule mono)
    next
      case False
      then show ?thesis using that(2) by (rule dflt)
    qed
    have 5: "n \<le> 2 ^ 32"
    proof (cases "Suc i < n")
      case True
      with bound show ?thesis by simp
    next
      case False
      with n have "n = Suc i" by simp
      with \<open>i < map_size m\<close> map_size_le [of m] show ?thesis by simp
    qed
    show ?thesis
      using \<open>i < n\<close> 1 2 3 4 5 size by (intro exI [of _ n]) simp
  qed
qed


lemma unat_of_nat_int32:
  assumes "a < 2 ^ 32"
  shows "unat (of_nat a :: int32) = a"
proof -
  have "LENGTH(32) = 32" by simp
  with assms have "a < 2 ^ LENGTH(32)" by (simp only:)
  with of_nat_inverse [OF refl] show ?thesis by blast
qed

lemma inj_on_of_nat_int32:
  assumes "n \<le> 2 ^ 32"
  shows "inj_on (of_nat :: nat \<Rightarrow> int32) {0..<n}"
proof (rule inj_onI)
  fix a b :: nat
  assume "a \<in> {0..<n}" "b \<in> {0..<n}" and eq: "(of_nat a :: int32) = of_nat b"
  then have "a < n" "b < n" by simp_all
  then have "a < 2 ^ 32" "b < 2 ^ 32"
    using assms less_le_trans by blast+
  then have "unat (of_nat a :: int32) = a" "unat (of_nat b :: int32) = b"
    using unat_of_nat_int32 by blast+
  with eq show "a = b" by metis
qed

lemma draw_menu_result:
  assumes "draw_menu E maxx y st = (out, st')"
  defines "half \<equiv> map_size (help_texts st) div 2 + 1"
  defines "n \<equiv> length out"
  shows "out = map (menu_entry E y half
                 (widen E (divide_round_up maxx 2) (map (menu_label E (help_texts st')) [0..<half]))
                 (help_texts st')) [0..<n]"
    and "\<And>k t. fmlookup (help_texts st) k = Some t \<Longrightarrow> fmlookup (help_texts st') k = Some t"
    and "fmdom' (help_texts st') = of_nat ` {0..<n}"
    and "\<And>k. k \<notin> fmdom' (help_texts st) \<Longrightarrow> k \<in> fmdom' (help_texts st') \<Longrightarrow>
           fmlookup (help_texts st') k = Some default_topic"
    and "map_size (help_texts st') = n" and "n \<le> 2 ^ 32"
    and "hotkeys st' = hotkeys st"
    and "n = 0 \<or> half \<le> n"
proof -
  let ?m = "help_texts st" and ?m' = "help_texts st'"
  let ?sc = "divide_round_up maxx 2"
  from assms(1) have loop: "draw_menu_loop E y half 0 ?sc ?m [] = (out, ?m')"
    and hk: "hotkeys st' = hotkeys st"
    by (auto simp: draw_menu_def Let_def half_def prod_eq_iff)
  from draw_menu_loop_trace [OF loop] obtain n' where
        out: "out = map (menu_entry E y half (widen E ?sc (map (menu_label E ?m') [0..<half])) ?m') [0..<n']"
    and mono: "\<And>k t. fmlookup ?m k = Some t \<Longrightarrow> fmlookup ?m' k = Some t"
    and dom: "fmdom' ?m' = fmdom' ?m \<union> of_nat ` {0..<n'}"
    and dflt: "\<And>k. k \<notin> fmdom' ?m \<Longrightarrow> k \<in> fmdom' ?m' \<Longrightarrow> fmlookup ?m' k = Some default_topic"
    and size: "map_size ?m' \<le> n'" and bound: "0 < n' \<longrightarrow> n' \<le> 2 ^ 32"
    by auto
  have n': "n' = n"
    using out by (simp add: n_def)
  have le: "n' \<le> 2 ^ 32"
    using bound by (cases "n' = 0") simp_all
  have "card ((of_nat :: nat \<Rightarrow> int32) ` {0..<n'}) = n'"
    using card_image [OF inj_on_of_nat_int32 [OF le]] by simp
  moreover have sub: "(of_nat :: nat \<Rightarrow> int32) ` {0..<n'} \<subseteq> fmdom' ?m'"
    using dom by simp
  ultimately have "n' \<le> card (fmdom' ?m')"
    using card_mono [OF _ sub] by simp
  with size have card: "card (fmdom' ?m') = n'"
    by (simp add: map_size_def)
  have "(of_nat :: nat \<Rightarrow> int32) ` {0..<n'} = fmdom' ?m'"
    by (rule card_subset_eq [OF _ sub])
      (simp_all add: card \<open>card ((of_nat :: nat \<Rightarrow> int32) ` {0..<n'}) = n'\<close>)
  then show "fmdom' ?m' = of_nat ` {0..<n}"
    by (simp add: n')
  show "out = map (menu_entry E y half (widen E ?sc (map (menu_label E ?m') [0..<half])) ?m') [0..<n]"
    using out by (simp add: n')
  show "map_size ?m' = n" using card by (simp add: map_size_def n')
  show "n \<le> 2 ^ 32" using le by (simp add: n')
  show "hotkeys st' = hotkeys st" by (rule hk)
  show "fmlookup ?m' k = Some t" if "fmlookup ?m k = Some t" for k t
    using that by (rule mono)
  show "fmlookup ?m' k = Some default_topic" if "k \<notin> fmdom' ?m" "k \<in> fmdom' ?m'" for k
    using that by (rule dflt)
  show "n = 0 \<or> half \<le> n"
  proof (cases "map_size ?m = 0")
    case True
    with loop have "out = []"
      by (simp add: draw_menu_loop.simps [of E y half 0])
    then show ?thesis by (simp add: n_def)
  next
    case False
    have "fmdom' ?m \<subseteq> fmdom' ?m'"
      using dom by blast
    then have "map_size ?m \<le> n"
      using card_mono [of "fmdom' ?m'" "fmdom' ?m"] card by (simp add: map_size_def n')
    with False show ?thesis by (simp add: half_def)
  qed
qed

lemma widen_longest:
  assumes "ps \<noteq> []"
  shows "widen E sc (map label ps) = max sc (longest_label E ps + 4)"
  using assms
proof (induction ps arbitrary: sc)
  case Nil
  then show ?case by simp
next
  case (Cons p ps)
  show ?case
  proof (cases "ps = []")
    case True
    then show ?thesis by (simp add: widen_Cons widen_Nil longest_label_def)
  next
    case False
    from Cons.IH [OF this] show ?thesis
      by (simp add: widen_Cons longest_label_def max_def)
  qed
qed


lemma label_le_longest:
  assumes "p \<in> set ps"
  shows "utf8_width E (label p) \<le> longest_label E ps"
  using assms by (induction ps) (auto simp: longest_label_def)

lemma label_menu_entry: "label (menu_entry E y half X m j) = menu_label E m j"
  and row_menu_entry: "row (menu_entry E y half X m j) = y + j mod half"
  and column_menu_entry: "column (menu_entry E y half X m j) = (if j < half then 1 else X)"
  by (simp_all add: label_def row_def column_def menu_entry_def)

lemma draw_menu_loop_last:
  assumes "draw_menu_loop E y half i sc m out = (out', m')" and "length out < length out'"
  shows "i + (length out' - length out) - 1 <
           card (fmdom' m \<union> of_nat ` {i..<i + (length out' - length out) - 1})"
  using assms
proof (induction E y half i sc m out arbitrary: out' m' rule: draw_menu_loop.induct)
  case (1 E y half i sc m out)
  show ?case
  proof (cases "i < map_size m")
    case False
    with "1.prems" show ?thesis
      by (simp add: draw_menu_loop.simps [of E y half i])
  next
    case True
    define cat_name where "cat_name = translate E (fst (fst (subscript m (of_nat i))))"
    define m1 where "m1 = snd (subscript m (of_nat i))"
    define sc' where "sc' = (if i < half then max sc (utf8_width E cat_name + 4) else sc)"
    define p :: print where "p = (if i < half then 1 else sc', y + i mod half, cat_name)"
    have "draw_menu_loop E y half i sc m out = draw_menu_loop E y half (Suc i) sc' m1 (out @ [p])"
      unfolding cat_name_def m1_def sc'_def p_def
      by (subst draw_menu_loop.simps) (simp only: True if_True Let_def)
    with "1.prems" have rec: "draw_menu_loop E y half (Suc i) sc' m1 (out @ [p]) = (out', m')"
      by simp
    from draw_menu_loop_trace [OF rec] have len: "Suc (length out) \<le> length out'"
      by auto
    show ?thesis
    proof (cases "Suc (length out) < length out'")
      case False
      with len have "length out' - length out = 1"
        by simp
      with True show ?thesis
        by (simp add: map_size_def)
    next
      case more: True
      then have "length (out @ [p]) < length out'"
        by simp
      from "1.IH" [OF True cat_name_def m1_def sc'_def rec [unfolded p_def] this [unfolded p_def]]
      have "Suc i + (length out' - Suc (length out)) - 1 <
          card (fmdom' m1 \<union> of_nat ` {Suc i..<Suc i + (length out' - Suc (length out)) - 1})"
        by simp
      moreover from more have "Suc i + (length out' - Suc (length out)) = i + (length out' - length out)"
        by simp
      moreover have "fmdom' m1 \<union> of_nat ` {Suc i..<i + (length out' - length out) - 1} =
          fmdom' m \<union> of_nat ` {i..<i + (length out' - length out) - 1}"
      proof -
        from more have "{i..<i + (length out' - length out) - 1} =
            insert i {Suc i..<i + (length out' - length out) - 1}"
          by auto
        then show ?thesis
          by (simp add: m1_def subscript_lookup)
      qed
      ultimately show ?thesis
        by simp
    qed
  qed
qed

lemma draw_menu_indices:
  assumes "draw_menu E maxx y st = (out, st')"
  shows "\<And>k. k \<in> fmdom' (help_texts st) \<Longrightarrow> unat k < length out"
    and "out \<noteq> [] \<Longrightarrow> \<exists>k \<in> fmdom' (help_texts st). length out = Suc (unat k)"
    and "\<And>j. j < length out \<Longrightarrow>
           label (out ! j) = translate E (fst (topic_at (help_texts st) (of_nat j)))"
    and "map_size (help_texts st) \<le> length out"
proof -
  define half where "half = map_size (help_texts st) div 2 + 1"
  define n where "n = length out"
  let ?m = "help_texts st" and ?m' = "help_texts st'"
  let ?X = "widen E (divide_round_up maxx 2) (map (menu_label E ?m') [0..<half])"
  note r = draw_menu_result [OF assms, folded half_def n_def]
  have nth: "out ! j = menu_entry E y half ?X ?m' j" if "j < n" for j
    using that by (subst r(1)) simp
  have sub: "fmdom' ?m \<subseteq> fmdom' ?m'"
  proof
    fix k
    assume "k \<in> fmdom' ?m"
    then obtain t where "fmlookup ?m k = Some t"
      by (auto simp: fmlookup_dom'_iff)
    then have "fmlookup ?m' k = Some t" by (rule r(2))
    then show "k \<in> fmdom' ?m'" by (rule fmdom'I)
  qed
  show below: "unat k < length out" if "k \<in> fmdom' ?m" for k
  proof -
    from that sub r(3) obtain j where j: "j < n" "k = of_nat j" by auto
    with r(6) have "j < 2 ^ 32" by simp
    then have "unat k = j" using j(2) unat_of_nat_int32 by blast
    with j show ?thesis by (simp add: n_def)
  qed
  show "map_size ?m \<le> length out"
    using card_mono [OF _ sub] r(5) by (simp add: map_size_def n_def)
  show "label (out ! j) = translate E (fst (topic_at ?m (of_nat j)))" if "j < length out" for j
  proof (cases "fmlookup ?m (of_nat j)")
    case (Some t)
    then have "fmlookup ?m' (of_nat j) = Some t" by (rule r(2))
    with Some that show ?thesis
      by (simp add: nth n_def label_menu_entry menu_label_def topic_at_def)
  next
    case None
    then have "of_nat j \<notin> fmdom' ?m"
      by (simp add: fmdom'_notI)
    moreover from that r(3) have "of_nat j \<in> fmdom' ?m'"
      by (simp add: n_def)
    ultimately have "fmlookup ?m' (of_nat j) = Some default_topic"
      by (rule r(4))
    with None that show ?thesis
      by (simp add: nth n_def label_menu_entry menu_label_def topic_at_def)
  qed
  show "\<exists>k \<in> fmdom' ?m. length out = Suc (unat k)" if "out \<noteq> []"
  proof (rule ccontr)
    assume no: "\<not> (\<exists>k \<in> fmdom' ?m. length out = Suc (unat k))"
    from assms have loop: "draw_menu_loop E y half 0 (divide_round_up maxx 2) ?m [] = (out, ?m')"
      by (auto simp: draw_menu_def Let_def half_def prod_eq_iff)
    from that have "length ([] :: print list) < length out"
      by simp
    from draw_menu_loop_last [OF loop this]
    have last: "n - 1 < card (fmdom' ?m \<union> of_nat ` {0..<n - 1})"
      by (simp add: n_def)
    have "fmdom' ?m \<subseteq> of_nat ` {0..<n - 1}"
    proof
      fix k
      assume k: "k \<in> fmdom' ?m"
      from below [OF k] no k have "unat k < n - 1"
        by (auto simp: n_def less_Suc_eq dest: Suc_lessI)
      then have "of_nat (unat k) \<in> (of_nat :: nat \<Rightarrow> int32) ` {0..<n - 1}"
        by (intro imageI) simp
      then show "k \<in> of_nat ` {0..<n - 1}"
        by simp
    qed
    then have "fmdom' ?m \<union> of_nat ` {0..<n - 1} = of_nat ` {0..<n - 1}"
      by blast
    with last have "n - 1 < card ((of_nat :: nat \<Rightarrow> int32) ` {0..<n - 1})"
      by simp
    moreover have "card ((of_nat :: nat \<Rightarrow> int32) ` {0..<n - 1}) \<le> card {0..<n - 1}"
      by (rule card_image_le) simp
    ultimately show False
      by simp
  qed
qed

lemma dense_catalog_indices:
  assumes "\<And>k. k \<in> fmdom' m \<Longrightarrow> unat k < map_size m" and "j < map_size m"
  shows "\<exists>t. fmlookup m (of_nat j) = Some t"
proof -
  have "inj_on unat (fmdom' m)"
    by (rule inj_onI) (simp add: word_unat_eq_iff)
  then have "card (unat ` fmdom' m) = map_size m"
    by (simp add: card_image map_size_def)
  moreover have "unat ` fmdom' m \<subseteq> {0..<map_size m}"
    using assms(1) by auto
  ultimately have "unat ` fmdom' m = {0..<map_size m}"
    by (intro card_subset_eq) simp_all
  with assms(2) obtain k where "k \<in> fmdom' m" "unat k = j"
    by (metis atLeastLessThan_iff imageE zero_le)
  then have "of_nat j \<in> fmdom' m"
    by auto
  then show ?thesis
    by (simp add: fmlookup_dom'_iff)
qed



lemma dense_menu:
  "fst (draw_menu demo_externals 10 2 dense_object) =
     [(1, 2, ''Movement''), (1, 3, ''Items''), (12, 2, ''Craft'')]"
  by code_simp

text \<open>
  C8. With C topics in the map when \<^verbatim>\<open>draw_menu\<close> is called, C not 0, every index below
  C div 2 + 1 is printed, in column 1, with the name of the topic that \<^verbatim>\<open>help_texts[i]\<close>
  reads at that index (the empty name where the map holds no topic). Every print has
  the name of the topic at its index; there are at least C prints, one for every index
  up to the largest key of the map, and exactly C, each with the name of a stored topic,
  when the keys of the map are the indices below C. The prints of the indices from
  C div 2 + 1 on are in the column that is the larger of half the width of the window,
  rounded up, and the width of the longest label of the first column plus 4. A label of
  the first column starts in column 1 and ends before that column.
\<close>

theorem menu_columns:
  assumes "draw_menu E maxx y st = (out, st')"
  shows "(0 < map_size (help_texts st) \<longrightarrow>
            (\<forall>j < map_size (help_texts st) div 2 + 1.
               j < length out \<and> column (out ! j) = 1 \<and>
               label (out ! j) = translate E (fst (topic_at (help_texts st) (of_nat j))))) \<and>
         (\<forall>j < length out.
            label (out ! j) = translate E (fst (topic_at (help_texts st) (of_nat j)))) \<and>
         map_size (help_texts st) \<le> length out \<and>
         (\<forall>k \<in> fmdom' (help_texts st). unat k < length out) \<and>
         (out \<noteq> [] \<longrightarrow> (\<exists>k \<in> fmdom' (help_texts st). length out = Suc (unat k))) \<and>
         ((\<forall>k \<in> fmdom' (help_texts st). unat k < map_size (help_texts st)) \<longrightarrow>
            length out = map_size (help_texts st) \<and>
            (\<forall>j < length out. \<exists>t. fmlookup (help_texts st) (of_nat j) = Some t \<and>
               label (out ! j) = translate E (fst t))) \<and>
         (\<forall>j < length out.
            column (out ! j) =
              (if j < map_size (help_texts st) div 2 + 1 then 1
               else max (divide_round_up maxx 2)
                      (longest_label E (take (map_size (help_texts st) div 2 + 1) out) + 4))) \<and>
         (\<forall>j < length out. j < map_size (help_texts st) div 2 + 1 \<longrightarrow>
            1 + utf8_width E (label (out ! j)) <
              max (divide_round_up maxx 2)
                (longest_label E (take (map_size (help_texts st) div 2 + 1) out) + 4))"
proof -
  define half where "half = map_size (help_texts st) div 2 + 1"
  define n where "n = length out"
  let ?m = "help_texts st" and ?m' = "help_texts st'"
  let ?X = "widen E (divide_round_up maxx 2) (map (menu_label E ?m') [0..<half])"
  let ?SC = "max (divide_round_up maxx 2) (longest_label E (take half out) + 4)"
  note r = draw_menu_result [OF assms, folded half_def n_def]
  note ix = draw_menu_indices [OF assms, folded n_def]
  have out: "out = map (menu_entry E y half ?X ?m') [0..<n]"
    by (rule r(1))
  have nth: "out ! j = menu_entry E y half ?X ?m' j" if "j < n" for j
    using that by (subst out) simp
  have X: "?X = ?SC" if "0 < n"
  proof -
    from that r(8) have half: "half \<le> n" by simp
    then have first: "take half out = map (menu_entry E y half ?X ?m') [0..<half]"
      by (subst out) (simp add: take_map min_def)
    have "half \<noteq> 0" by (simp add: half_def)
    then have "take half out \<noteq> []"
      using first by simp
    then have "widen E (divide_round_up maxx 2) (map label (take half out)) = ?SC"
      by (rule widen_longest)
    moreover have "map label (take half out) = map (menu_label E ?m') [0..<half]"
      by (simp add: first label_menu_entry comp_def)
    ultimately show ?thesis by (simp only:)
  qed
  have col: "column (out ! j) = (if j < half then 1 else ?SC)" if "j < n" for j
    using that X [of ] by (simp add: nth column_menu_entry)
  have gap: "1 + utf8_width E (label (out ! j)) < ?SC" if "j < n" "j < half" for j
  proof -
    from that r(8) have "half \<le> n" by simp
    with that have "out ! j \<in> set (take half out)"
      by (auto simp: in_set_conv_nth n_def intro!: exI [of _ j])
    from label_le_longest [OF this, of E] show ?thesis by simp
  qed
  have lab: "label (out ! j) = translate E (fst (topic_at ?m (of_nat j)))" if "j < n" for j
    using that by (intro ix(3)) (simp add: n_def)
  have first: "j < n \<and> column (out ! j) = 1 \<and>
      label (out ! j) = translate E (fst (topic_at ?m (of_nat j)))"
    if "0 < map_size ?m" "j < half" for j
  proof -
    from that(1) ix(4) r(8) have "half \<le> n" by simp
    with that(2) have "j < n" by simp
    with col [OF this] lab [OF this] that(2) show ?thesis by simp
  qed
  have last: "\<exists>k \<in> fmdom' ?m. n = Suc (unat k)" if "out \<noteq> []"
    using ix(2) [OF that] .
  have dense: "n = map_size ?m \<and>
      (\<forall>j < n. \<exists>t. fmlookup ?m (of_nat j) = Some t \<and> label (out ! j) = translate E (fst t))"
    if all: "\<forall>k \<in> fmdom' ?m. unat k < map_size ?m"
  proof -
    have "n \<le> map_size ?m"
    proof (cases "out = []")
      case True
      then show ?thesis by (simp add: n_def)
    next
      case False
      from last [OF this] all show ?thesis by auto
    qed
    with ix(4) have n: "n = map_size ?m" by simp
    have "\<exists>t. fmlookup ?m (of_nat j) = Some t \<and> label (out ! j) = translate E (fst t)"
      if "j < n" for j
    proof -
      from all that have "\<exists>t. fmlookup ?m (of_nat j) = Some t"
        by (intro dense_catalog_indices) (simp_all add: n)
      then obtain t where "fmlookup ?m (of_nat j) = Some t" ..
      with lab [OF that] show ?thesis by (simp add: topic_at_def)
    qed
    with n show ?thesis by simp
  qed
  from ix(1) have below: "\<forall>k \<in> fmdom' ?m. unat k < n"
    by simp
  show ?thesis
    using first lab ix(4) below last dense col gap unfolding half_def n_def by blast
qed

theorem menu_columns_witness:
  "fst (draw_menu demo_externals 10 2 dense_object) =
     [(1, 2, ''Movement''), (1, 3, ''Items''), (12, 2, ''Craft'')] \<and>
   map_size (help_texts dense_object) = 3 \<and>
   fmdom' (help_texts dense_object) = {0, 1, 2} \<and>
   length (fst (draw_menu demo_externals 10 2 dense_object)) = map_size (help_texts dense_object) \<and>
   fmlookup (help_texts dense_object) 1 = Some (''Items'', []) \<and>
   label (fst (draw_menu demo_externals 10 2 dense_object) ! 1) = ''Items'' \<and>
   column (fst (draw_menu demo_externals 10 2 dense_object) ! 1) = 1 \<and>
   column (12, 2, ''Craft'') =
     max (divide_round_up 10 2)
       (longest_label demo_externals [(1, 2, ''Movement''), (1, 3, ''Items'')] + 4) \<and>
   1 + utf8_width demo_externals ''Movement'' < (12 :: nat)"
proof -
  let ?out = "fst (draw_menu demo_externals 10 2 dense_object)"
  have size: "map_size (help_texts dense_object) = 3"
    and keys: "fmdom' (help_texts dense_object) = {0, 1, 2}"
    and at1: "fmlookup (help_texts dense_object) 1 = Some (''Items'', [])"
    by (simp_all add: dense_object_def map_size_def insert_commute)
  have dense: "\<forall>k \<in> fmdom' (help_texts dense_object). unat k < map_size (help_texts dense_object)"
    by (simp add: keys size)
  note columns = menu_columns [where E = demo_externals and maxx = 10 and y = 2 and st = dense_object,
      OF prod.collapse [symmetric]]
  from columns dense have len: "length ?out = map_size (help_texts dense_object)"
    by blast
  from columns have first: "j < length ?out \<and> column (?out ! j) = 1 \<and>
        label (?out ! j) = translate demo_externals (fst (topic_at (help_texts dense_object) (of_nat j)))"
    if "j < map_size (help_texts dense_object) div 2 + 1" for j
    using that size by simp
  from columns
  have col: "column (?out ! j) =
        (if j < map_size (help_texts dense_object) div 2 + 1 then 1
         else max (divide_round_up 10 2)
                (longest_label demo_externals (take (map_size (help_texts dense_object) div 2 + 1) ?out) + 4))"
    and gap: "j < map_size (help_texts dense_object) div 2 + 1 \<Longrightarrow>
        1 + utf8_width demo_externals (label (?out ! j)) <
          max (divide_round_up 10 2)
            (longest_label demo_externals (take (map_size (help_texts dense_object) div 2 + 1) ?out) + 4)"
    if "j < length ?out" for j
    using that by blast+
  from first [of 1] at1 have second: "label (?out ! 1) = ''Items''" "column (?out ! 1) = 1"
    by (simp_all add: size topic_at_def demo_externals_def)
  have "column (12, 2, ''Craft'') =
      max (divide_round_up 10 2)
        (longest_label demo_externals [(1, 2, ''Movement''), (1, 3, ''Items'')] + 4)"
    using col [of 2] by (simp add: dense_menu size)
  moreover have "1 + utf8_width demo_externals ''Movement'' < (12 :: nat)"
    using gap [of 0] col [of 2]
    by (simp add: dense_menu size label_def column_def)
  ultimately show ?thesis
    using dense_menu size keys len at1 second by simp
qed




end
